theory Spec2Isabelle
  imports Complex_Main "HOL-Library.AList" "HOL-Library.Multiset"
begin

section \<open>Pricing tool: reference-data cache and quote engine\<close>

text \<open>
  A shallow embedding of \<^verbatim>\<open>src/backend/app/main.py\<close>.

  Conventions of the embedding.
  \<^item> A Python \<^verbatim>\<open>float\<close> is a value of a type \<open>'n\<close> that carries the comparisons \<open>\<le>\<close> and
    \<open><\<close> and the arithmetic operations the code applies (\<open>0\<close>, \<open>1\<close>, \<open>+\<close>, \<open>-\<close>, \<open>*\<close>, \<open>/\<close>).
    The quote engine is defined for every such type and assumes no law of the
    comparisons or of the arithmetic: a type with a NaN, which no comparison relates
    to anything, is an instance (\<open>pyfloat\<close> below is one). A theorem that needs the
    numbers to be linearly ordered says so in the sort of its number type; the
    concrete examples are evaluated at type \<open>real\<close> and at \<open>pyfloat\<close>.
  \<^item> A Python \<^verbatim>\<open>dict\<close> is an association list with distinct keys, in insertion order
    (Python dictionaries iterate in insertion order). \<open>map_of\<close> is the lookup,
    \<open>AList.update\<close> is the assignment \<^verbatim>\<open>d[k] = v\<close>: it replaces the value of a key in
    place and appends a new key at the end.
  \<^item> A raised exception is the \<open>Inl\<close> branch of a sum type.
  \<^item> A \<^verbatim>\<open>str\<close> is a \<open>string\<close>: the list of the bytes of its UTF-8 encoding. An ASCII
    character is one byte, and no byte of the encoding of another code point is an
    ASCII byte.
\<close>

subsection \<open>Numeric coercion\<close>

text \<open>The code points for which \<^verbatim>\<open>str.isspace\<close> holds, by the length of their
  encoding: the ASCII ones; U+0085 and U+00A0; U+1680, U+2000 to U+200A, U+2028,
  U+2029, U+202F, U+205F and U+3000.\<close>

definition space1 :: "char \<Rightarrow> bool" where
  "space1 a = (a \<in> {CHR 0x09, CHR 0x0A, CHR 0x0B, CHR 0x0C, CHR 0x0D,
                     CHR 0x1C, CHR 0x1D, CHR 0x1E, CHR 0x1F, CHR 0x20})"

definition space2 :: "char \<Rightarrow> char \<Rightarrow> bool" where
  "space2 a b = (a = CHR 0xC2 \<and> b \<in> {CHR 0x85, CHR 0xA0})"

definition space3 :: "char \<Rightarrow> char \<Rightarrow> char \<Rightarrow> bool" where
  "space3 a b c =
     (a = CHR 0xE1 \<and> b = CHR 0x9A \<and> c = CHR 0x80 \<or>
      a = CHR 0xE2 \<and> b = CHR 0x80 \<and>
        c \<in> {CHR 0x80, CHR 0x81, CHR 0x82, CHR 0x83, CHR 0x84, CHR 0x85, CHR 0x86, CHR 0x87,
             CHR 0x88, CHR 0x89, CHR 0x8A, CHR 0xA8, CHR 0xA9, CHR 0xAF} \<or>
      a = CHR 0xE2 \<and> b = CHR 0x81 \<and> c = CHR 0x9F \<or>
      a = CHR 0xE3 \<and> b = CHR 0x80 \<and> c = CHR 0x80)"

text \<open>\<open>is_space w\<close>: the bytes \<open>w\<close> are the encoding of one whitespace code point.\<close>

definition is_space :: "string \<Rightarrow> bool" where
  "is_space w =
     (case w of
        [a] \<Rightarrow> space1 a
      | [a, b] \<Rightarrow> space2 a b
      | [a, b, c] \<Rightarrow> space3 a b c
      | _ \<Rightarrow> False)"

text \<open>The removal of the whitespace code points that a string begins with. \<open>enc\<close> turns
  the bytes met into an encoding: it is the identity on a string read from its
  start, and \<open>rev\<close> on a string read from its end.\<close>

fun drop_spaces :: "(string \<Rightarrow> string) \<Rightarrow> string \<Rightarrow> string" where
  "drop_spaces enc (a # b # c # s) =
     (if is_space (enc [a]) then drop_spaces enc (b # c # s)
      else if is_space (enc [a, b]) then drop_spaces enc (c # s)
      else if is_space (enc [a, b, c]) then drop_spaces enc s
      else a # b # c # s)"
| "drop_spaces enc [a, b] =
     (if is_space (enc [a]) then drop_spaces enc [b]
      else if is_space (enc [a, b]) then []
      else [a, b])"
| "drop_spaces enc [a] = (if is_space (enc [a]) then [] else [a])"
| "drop_spaces enc [] = []"

text \<open>\<^verbatim>\<open>str.strip()\<close>: the whitespace code points are removed from both ends.\<close>

definition strip :: "string \<Rightarrow> string" where
  "strip s = rev (drop_spaces rev (rev (drop_spaces (\<lambda>w. w) s)))"

text \<open>\<^verbatim>\<open>str.lower()\<close>. An ASCII letter is lowered; a byte of another code point is left
  as it is. Python maps a code point outside ASCII to code points outside ASCII, but
  for U+212A, which becomes \<open>k\<close>, and U+0130, which becomes \<open>i\<close> and U+0307: on a
  string with a code point outside ASCII the result of the model and that of Python
  differ, and both hold a byte or a letter that no word of \<open>parse_bool\<close> holds, so the
  test of \<open>parse_bool\<close> is the same.\<close>

definition to_lower :: "char \<Rightarrow> char" where
  "to_lower c =
     (case map_of (zip ''ABCDEFGHIJKLMNOPQRSTUVWXYZ'' ''abcdefghijklmnopqrstuvwxyz'') c of
        Some d \<Rightarrow> d
      | None \<Rightarrow> c)"

definition lower :: "string \<Rightarrow> string" where
  "lower s = map to_lower s"

text \<open>\<^verbatim>\<open>s.replace(c, "")\<close> for a one-character \<open>c\<close>.\<close>

definition remove_char :: "char \<Rightarrow> string \<Rightarrow> string" where
  "remove_char c s = filter (\<lambda>x. x \<noteq> c) s"

text \<open>\<^verbatim>\<open>DataStore._parse_bool\<close>.\<close>

definition parse_bool :: "string \<Rightarrow> bool" where
  "parse_bool v = (lower (strip v) \<in> {''true'', ''1'', ''yes'', ''y''})"

text \<open>The \<^verbatim>\<open>detail\<close> of the HTTP errors that the quote engine raises; a message that
  quotes a value carries it.\<close>

datatype detail =
    Unknown_uplifts "string list"
  | Unknown_sku_code string
  | Sku_code_required
  | Quantity_must_be_positive
  | Use_case_required
  | Use_case_not_found string
  | Hours_must_be_positive
  | Bad_mode

text \<open>The exceptions of the program. \<open>HTTPException status detail\<close> is FastAPI's;
  \<open>FetchError\<close> stands for whatever \<^verbatim>\<open>_fetch_csv\<close> raises.\<close>

datatype error =
    HTTPException nat detail
  | RuntimeError string
  | KeyError string
  | ValueError string
  | ZeroDivisionError
  | FetchError string

text \<open>\<^verbatim>\<open>DataStore._parse_float\<close>. The builtin \<^verbatim>\<open>float(str)\<close> is the parameter
  \<open>float_of\<close>: \<open>None\<close> where it raises \<^verbatim>\<open>ValueError\<close>.\<close>

definition parse_float :: "(string \<Rightarrow> 'n option) \<Rightarrow> string \<Rightarrow> error + 'n::zero" where
  "parse_float float_of v =
     (let cleaned = remove_char CHR ''%'' (remove_char CHR ''$'' (remove_char CHR '','' (strip v)))
      in if cleaned = [] then Inr 0
         else (case float_of cleaned of
                 None \<Rightarrow> Inl (ValueError cleaned)
               | Some x \<Rightarrow> Inr x))"

text \<open>A case-insensitive match of two strings, as the specification words it: the
  same length, and position by position the same letter up to case.\<close>

definition ci_match :: "string \<Rightarrow> string \<Rightarrow> bool" where
  "ci_match s t = list_all2 (\<lambda>a b. to_lower a = to_lower b) s t"

subsection \<open>Data model\<close>

record 'n SKU =
  sku_code :: string
  name :: string
  unit_label :: string
  base_unit_price :: 'n
  unit :: 'n

record 'n VolumeDiscount =
  min_units :: 'n
  discount_decimal :: 'n

record 'n Uplift =
  uplift_name :: string
  percent_decimal :: 'n
  enabled :: bool

text \<open>\<^verbatim>\<open>QuoteRequest\<close>; the field \<^verbatim>\<open>sku_code\<close> is \<open>sku_code_req\<close> here, the name being
  taken by the record \<open>SKU\<close>.\<close>

record 'n QuoteRequest =
  mode :: string
  sku_code_req :: "string option"
  quantity :: "'n option"
  use_case :: "string option"
  hours :: "'n option"
  customer :: "string option"
  gpu_type :: "string option"
  region :: "string option"
  rank_results_by :: "string option"
  uplift_names :: "string list option"

text \<open>The fields of \<^verbatim>\<open>DataStore\<close> but the lock. A reading of \<^verbatim>\<open>time.time()\<close> is a
  \<open>real\<close> number of seconds.\<close>

record 'n DataStore =
  skus :: "(string \<times> 'n SKU) list"
  volume_discounts :: "'n VolumeDiscount list"
  uplifts :: "(string \<times> 'n Uplift) list"
  use_case_mappings :: "(string \<times> (string \<times> 'n) list) list"
  use_cases :: "string list"
  last_refresh_utc :: "real option"

text \<open>\<^verbatim>\<open>DataStore.__init__\<close>.\<close>

definition init_store :: "'n DataStore" where
  "init_store = \<lparr>skus = [], volume_discounts = [], uplifts = [], use_case_mappings = [],
     use_cases = [], last_refresh_utc = None\<rparr>"

definition REFRESH_SECONDS :: real where
  "REFRESH_SECONDS = 600"

subsection \<open>Python idioms\<close>

text \<open>A list comprehension whose element expression may raise: the first exception
  ends it.\<close>

fun traverse :: "('a \<Rightarrow> error + 'b) \<Rightarrow> 'a list \<Rightarrow> error + 'b list" where
  "traverse f [] = Inr []"
| "traverse f (x # xs) =
     (case f x of
        Inl e \<Rightarrow> Inl e
      | Inr y \<Rightarrow> (case traverse f xs of Inl e \<Rightarrow> Inl e | Inr ys \<Rightarrow> Inr (y # ys)))"

text \<open>Sequencing of two computations that may raise.\<close>

definition and_then :: "error + 'a \<Rightarrow> ('a \<Rightarrow> error + 'b) \<Rightarrow> error + 'b" where
  "and_then m f = (case m of Inl e \<Rightarrow> Inl e | Inr x \<Rightarrow> f x)"

text \<open>\<^verbatim>\<open>d[k]\<close>, which raises \<^verbatim>\<open>KeyError\<close> on a missing key.\<close>

definition getitem :: "(string \<times> 'v) list \<Rightarrow> string \<Rightarrow> error + 'v" where
  "getitem d k = (case map_of d k of None \<Rightarrow> Inl (KeyError k) | Some v \<Rightarrow> Inr v)"

text \<open>\<^verbatim>\<open>d.get(k, default)\<close>.\<close>

definition get_default :: "('k \<times> 'v) list \<Rightarrow> 'k \<Rightarrow> 'v \<Rightarrow> 'v" where
  "get_default d k dflt = (case map_of d k of None \<Rightarrow> dflt | Some v \<Rightarrow> v)"

text \<open>The dictionary built by assigning the pairs in order, from the empty one.\<close>

definition dict_of :: "('k \<times> 'v) list \<Rightarrow> ('k \<times> 'v) list" where
  "dict_of kvs = foldl (\<lambda>d kv. AList.update (fst kv) (snd kv) d) [] kvs"

text \<open>The builtin \<^verbatim>\<open>sum\<close>: it starts from \<open>0\<close> and adds from the left.\<close>

definition py_sum :: "'n list \<Rightarrow> 'n::{zero,plus}" where
  "py_sum xs = foldl (+) 0 xs"

text \<open>\<^verbatim>\<open>list.sort\<close> compares keys with \<open><\<close> only and is stable. On keys that \<open><\<close>
  orders linearly this fixes its result, which is that of the insertion sort below;
  on other keys (a NaN among them) the result of \<^verbatim>\<open>list.sort\<close> depends on the
  comparisons its algorithm happens to make, and the insertion sort stands for it only
  as one list of the same elements.\<close>

fun insort_lt :: "('a \<Rightarrow> 'k::ord) \<Rightarrow> 'a \<Rightarrow> 'a list \<Rightarrow> 'a list" where
  "insort_lt f x [] = [x]"
| "insort_lt f x (y # ys) = (if f y < f x then y # insort_lt f x ys else x # y # ys)"

definition sort_lt :: "('a \<Rightarrow> 'k::ord) \<Rightarrow> 'a list \<Rightarrow> 'a list" where
  "sort_lt f xs = foldr (insort_lt f) xs []"

text \<open>\<^verbatim>\<open>xs.sort(key=f, reverse=True)\<close>: CPython reverses the list, sorts it stably in
  ascending order and reverses the result, so that equal keys keep their order.\<close>

definition sort_reverse :: "('a \<Rightarrow> 'k::ord) \<Rightarrow> 'a list \<Rightarrow> 'a list" where
  "sort_reverse f xs = rev (sort_lt f (rev xs))"

subsection \<open>Quote engine\<close>

text \<open>\<^verbatim>\<open>_resolve_uplifts\<close>, reading the global \<^verbatim>\<open>store\<close>.\<close>

definition resolve_uplifts :: "'n DataStore \<Rightarrow> string list option \<Rightarrow> error + 'n Uplift list" where
  "resolve_uplifts store names_opt =
     (case names_opt of
        None \<Rightarrow> Inr (filter enabled (map snd (uplifts store)))
      | Some names \<Rightarrow>
          (let missing = filter (\<lambda>n. map_of (uplifts store) n = None) names
           in if missing \<noteq> [] then Inl (HTTPException 400 (Unknown_uplifts missing))
              else traverse (getitem (uplifts store)) names))"

text \<open>The loop of \<^verbatim>\<open>_calculate_sku_quote\<close> over \<^verbatim>\<open>store.volume_discounts\<close>; the last
  argument is the variable \<^verbatim>\<open>discount_decimal\<close>.\<close>

fun discount_loop :: "'n::ord \<Rightarrow> 'n VolumeDiscount list \<Rightarrow> 'n \<Rightarrow> 'n" where
  "discount_loop relative_units [] acc = acc"
| "discount_loop relative_units (d # ds) acc =
     discount_loop relative_units ds
       (if min_units d \<le> relative_units \<and> discount_decimal d > acc
        then discount_decimal d else acc)"

text \<open>The dictionary \<^verbatim>\<open>_calculate_sku_quote\<close> returns (a local variable of the source
  that shares its name with a field is primed in the definitions below). Its entry \<^verbatim>\<open>"sku"\<close> is the triple
  of the SKU's code, name and unit label; \<^verbatim>\<open>"base_unit_price"\<close> and
  \<^verbatim>\<open>"discount_decimal"\<close> carry the suffix \<open>_q\<close>; an applied uplift is the pair of its
  name and its fraction.\<close>

record 'n SkuQuote =
  sku :: "string \<times> string \<times> string"
  quantity_raw :: 'n
  unit_multiplier :: 'n
  relative_units :: 'n
  base_unit_price_q :: 'n
  base_cost :: 'n
  discount_decimal_q :: 'n
  discounted_cost :: 'n
  uplift_decimal :: 'n
  final_cost :: 'n
  applied_uplifts :: "(string \<times> 'n) list"

definition calculate_sku_quote ::
  "('n::{ord,zero,one,plus,minus,times,inverse}) DataStore \<Rightarrow> string \<Rightarrow> 'n
     \<Rightarrow> string list option \<Rightarrow> error + 'n SkuQuote" where
  "calculate_sku_quote store code qty names_opt =
     (case map_of (skus store) code of
        None \<Rightarrow> Inl (HTTPException 404 (Unknown_sku_code code))
      | Some s \<Rightarrow>
          if unit s = 0 then Inl ZeroDivisionError
          else
            (let relative_units' = qty / unit s;
                 base_cost' = relative_units' * base_unit_price s;
                 discount_decimal' = discount_loop relative_units' (volume_discounts store) 0;
                 discounted_cost' = base_cost' * (1 - discount_decimal')
             in case resolve_uplifts store names_opt of
                  Inl e \<Rightarrow> Inl e
                | Inr selected_uplifts \<Rightarrow>
                    (let uplift_decimal' = py_sum (map percent_decimal selected_uplifts);
                         final_cost' = discounted_cost' * (1 + uplift_decimal')
                     in Inr \<lparr>sku = (sku_code s, name s, unit_label s),
                          quantity_raw = qty,
                          unit_multiplier = unit s,
                          relative_units = relative_units',
                          base_unit_price_q = base_unit_price s,
                          base_cost = base_cost',
                          discount_decimal_q = discount_decimal',
                          discounted_cost = discounted_cost',
                          uplift_decimal = uplift_decimal',
                          final_cost = final_cost',
                          applied_uplifts =
                            map (\<lambda>u. (uplift_name u, percent_decimal u)) selected_uplifts\<rparr>)))"

text \<open>An entry of the breakdown of a use-case quote; \<^verbatim>\<open>"sku_code"\<close> and \<^verbatim>\<open>"unit_label"\<close>
  carry the suffix \<open>_l\<close>.\<close>

record 'n BreakdownLine =
  sku_code_l :: string
  sku_name :: string
  unit_label_l :: string
  units_per_hour :: 'n
  units_total :: 'n
  cost_usd :: 'n

text \<open>The loop of \<^verbatim>\<open>quote\<close> over \<^verbatim>\<open>store.use_case_mappings.items()\<close>; the last two
  arguments are the variables \<^verbatim>\<open>breakdown\<close> and \<^verbatim>\<open>grand_total_usd\<close>.\<close>

fun quote_loop ::
  "('n::{ord,zero,one,plus,minus,times,inverse}) DataStore \<Rightarrow> string \<Rightarrow> 'n
     \<Rightarrow> string list option \<Rightarrow> (string \<times> (string \<times> 'n) list) list
     \<Rightarrow> 'n BreakdownLine list \<Rightarrow> 'n \<Rightarrow> error + ('n BreakdownLine list \<times> 'n)" where
  "quote_loop store uc hrs names_opt [] breakdown' grand_total_usd' =
     Inr (breakdown', grand_total_usd')"
| "quote_loop store uc hrs names_opt ((code, per_use_case) # rest) breakdown' grand_total_usd' =
     (let units_per_hour' = get_default per_use_case uc 0;
          units_total' = units_per_hour' * hrs
      in if units_total' \<le> 0 then
           quote_loop store uc hrs names_opt rest breakdown' grand_total_usd'
         else if map_of (skus store) code = None then
           quote_loop store uc hrs names_opt rest breakdown' grand_total_usd'
         else
           (case calculate_sku_quote store code units_total' names_opt of
              Inl e \<Rightarrow> Inl e
            | Inr sku_quote \<Rightarrow>
                (let cost_usd' = final_cost sku_quote
                 in quote_loop store uc hrs names_opt rest
                      (breakdown' @
                        [\<lparr>sku_code_l = code,
                          sku_name = fst (snd (sku sku_quote)),
                          unit_label_l = snd (snd (sku sku_quote)),
                          units_per_hour = units_per_hour',
                          units_total = units_total',
                          cost_usd = cost_usd'\<rparr>])
                      (grand_total_usd' + cost_usd'))))"

text \<open>The dictionary \<^verbatim>\<open>quote\<close> returns in mode \<^verbatim>\<open>use_case\<close>; \<^verbatim>\<open>"mode"\<close>, \<^verbatim>\<open>"use_case"\<close>
  and \<^verbatim>\<open>"hours"\<close> carry the suffix \<open>_r\<close>.\<close>

record 'n UseCaseQuote =
  mode_r :: string
  use_case_r :: string
  hours_r :: 'n
  grand_total_usd :: 'n
  breakdown :: "'n BreakdownLine list"

datatype 'n quote_response = Sku_response "'n SkuQuote" | Use_case_response "'n UseCaseQuote"

text \<open>\<^verbatim>\<open>quote\<close>, from the statement after \<^verbatim>\<open>await store.ensure_fresh()\<close>, on the store
  that call leaves.\<close>

definition quote ::
  "('n::{ord,zero,one,plus,minus,times,inverse}) DataStore \<Rightarrow> 'n QuoteRequest
     \<Rightarrow> error + 'n quote_response" where
  "quote store payload =
     (if mode payload = ''sku'' then
        (case sku_code_req payload of
           None \<Rightarrow> Inl (HTTPException 400 Sku_code_required)
         | Some code \<Rightarrow>
             if code = [] then Inl (HTTPException 400 Sku_code_required)
             else
               (case quantity payload of
                  None \<Rightarrow> Inl (HTTPException 400 Quantity_must_be_positive)
                | Some qty \<Rightarrow>
                    if qty \<le> 0 then Inl (HTTPException 400 Quantity_must_be_positive)
                    else
                      (case calculate_sku_quote store code qty (uplift_names payload) of
                         Inl e \<Rightarrow> Inl e
                       | Inr q \<Rightarrow> Inr (Sku_response q))))
      else if mode payload = ''use_case'' then
        (case use_case payload of
           None \<Rightarrow> Inl (HTTPException 400 Use_case_required)
         | Some uc \<Rightarrow>
             if uc = [] then Inl (HTTPException 400 Use_case_required)
             else if uc \<notin> set (use_cases store) then
               Inl (HTTPException 400 (Use_case_not_found uc))
             else
               (case hours payload of
                  None \<Rightarrow> Inl (HTTPException 400 Hours_must_be_positive)
                | Some hrs \<Rightarrow>
                    if hrs \<le> 0 then Inl (HTTPException 400 Hours_must_be_positive)
                    else
                      (case quote_loop store uc hrs (uplift_names payload)
                              (use_case_mappings store) [] 0 of
                         Inl e \<Rightarrow> Inl e
                       | Inr (breakdown', grand_total_usd') \<Rightarrow>
                           Inr (Use_case_response
                             \<lparr>mode_r = ''use_case'',
                              use_case_r = uc,
                              hours_r = hrs,
                              grand_total_usd = grand_total_usd',
                              breakdown = sort_reverse cost_usd breakdown'\<rparr>))))
      else Inl (HTTPException 400 Bad_mode))"

subsection \<open>Reference data cache\<close>

text \<open>A row as \<^verbatim>\<open>_fetch_csv\<close> returns it: a \<^verbatim>\<open>dict[str, str]\<close> from the header names to the
  cells.\<close>

type_synonym row = "(string \<times> string) list"

text \<open>\<^verbatim>\<open>DataStore._parse_use_case_mappings\<close>. On a \<^verbatim>\<open>dict[str, str]\<close> no key and no
  value is \<^verbatim>\<open>None\<close>: the filter \<^verbatim>\<open>h is not None\<close> keeps every header, and
  \<^verbatim>\<open>row.get("SKU Code") or ""\<close> is the cell, or \<^verbatim>\<open>""\<close> for a missing one.
  \<open>use_case_row\<close> is the dictionary comprehension of one row, \<open>use_case_rows_loop\<close> the
  loop over the rows, with the variable \<^verbatim>\<open>parsed\<close> as its last argument.\<close>

definition use_case_row ::
  "(string \<Rightarrow> 'n option) \<Rightarrow> string list \<Rightarrow> row \<Rightarrow> error + (string \<times> 'n::zero) list" where
  "use_case_row float_of ucs r =
     and_then
       (traverse (\<lambda>uc. and_then (parse_float float_of (get_default r uc [])) (\<lambda>v. Inr (uc, v))) ucs)
       (\<lambda>kvs. Inr (dict_of kvs))"

fun use_case_rows_loop ::
  "(string \<Rightarrow> 'n option) \<Rightarrow> string list \<Rightarrow> row list \<Rightarrow> (string \<times> (string \<times> 'n::zero) list) list
     \<Rightarrow> error + (string \<times> (string \<times> 'n) list) list" where
  "use_case_rows_loop float_of ucs [] parsed = Inr parsed"
| "use_case_rows_loop float_of ucs (r # rs) parsed =
     (let code = strip (get_default r ''SKU Code'' [])
      in if code = [] then use_case_rows_loop float_of ucs rs parsed
         else and_then (use_case_row float_of ucs r)
                (\<lambda>d. use_case_rows_loop float_of ucs rs (AList.update code d parsed)))"

definition parse_use_case_mappings ::
  "(string \<Rightarrow> 'n option) \<Rightarrow> row list
     \<Rightarrow> error + ((string \<times> (string \<times> 'n::zero) list) list \<times> string list)" where
  "parse_use_case_mappings float_of rows =
     (case rows of
        [] \<Rightarrow> Inr ([], [])
      | r0 # _ \<Rightarrow>
          (let headers = map fst r0;
               ucs = filter (\<lambda>h. h \<noteq> ''SKU Code'') headers
           in and_then (use_case_rows_loop float_of ucs rows [])
                (\<lambda>parsed. Inr (parsed, ucs))))"

text \<open>The three record constructions of \<^verbatim>\<open>refresh_once\<close>; the arguments of a
  constructor are evaluated from left to right.\<close>

definition parse_sku :: "(string \<Rightarrow> 'n option) \<Rightarrow> row \<Rightarrow> error + 'n::zero SKU" where
  "parse_sku float_of r =
     and_then (getitem r ''SKU Code'') (\<lambda>code.
     and_then (getitem r ''Name'') (\<lambda>nm.
     and_then (getitem r ''Unit Label'') (\<lambda>label.
     and_then (getitem r ''Base Unit Price (USD)'') (\<lambda>price_cell.
     and_then (parse_float float_of price_cell) (\<lambda>price.
     and_then (getitem r ''Unit'') (\<lambda>unit_cell.
     and_then (parse_float float_of unit_cell) (\<lambda>u.
       Inr \<lparr>sku_code = code, name = nm, unit_label = label,
            base_unit_price = price, unit = u\<rparr>)))))))"

definition parse_volume_discount ::
  "(string \<Rightarrow> 'n option) \<Rightarrow> row \<Rightarrow> error + 'n::zero VolumeDiscount" where
  "parse_volume_discount float_of r =
     and_then (getitem r ''Min Units (Relative)'') (\<lambda>min_cell.
     and_then (parse_float float_of min_cell) (\<lambda>m.
     and_then (getitem r ''Discount % (as decimal)'') (\<lambda>discount_cell.
     and_then (parse_float float_of discount_cell) (\<lambda>d.
       Inr \<lparr>min_units = m, discount_decimal = d\<rparr>))))"

definition parse_uplift :: "(string \<Rightarrow> 'n option) \<Rightarrow> row \<Rightarrow> error + 'n::zero Uplift" where
  "parse_uplift float_of r =
     and_then (getitem r ''Uplift Name'') (\<lambda>nm.
     and_then (getitem r ''Percent (as decimal)'') (\<lambda>percent_cell.
     and_then (parse_float float_of percent_cell) (\<lambda>p.
     and_then (getitem r ''Enabled (TRUE/FALSE)'') (\<lambda>enabled_cell.
       Inr \<lparr>uplift_name = nm, percent_decimal = p, enabled = parse_bool enabled_cell\<rparr>))))"

text \<open>The message of the \<^verbatim>\<open>RuntimeError\<close> of \<^verbatim>\<open>refresh_once\<close>.\<close>

definition missing_env_message :: string where
  "missing_env_message =
     ''Missing required env vars: PRICELIST_CSV_URL, VOLUME_CSV_URL, '' @
     ''UPLIFTS_CSV_URL, USE_CASE_MAPPINGS_CSV_URL''"

text \<open>A configuration value that \<^verbatim>\<open>not url\<close> rejects: unset or empty.\<close>

definition unset :: "string option \<Rightarrow> bool" where
  "unset v = (case v of None \<Rightarrow> True | Some s \<Rightarrow> s = [])"

text \<open>\<^verbatim>\<open>DataStore.refresh_once\<close>, as one caller runs it from the acquisition of the lock
  to its release. The surroundings are parameters: \<open>getenv\<close> is \<^verbatim>\<open>os.getenv\<close>,
  \<open>fetch_csv url\<close> is what \<^verbatim>\<open>_fetch_csv\<close> returns or raises for \<open>url\<close>, \<open>now\<close> is the reading
  of \<^verbatim>\<open>time.time()\<close> in the last statement. Of several failing fetches
  \<^verbatim>\<open>asyncio.gather\<close> raises the one that fails first in time; the model takes the first
  in argument order. The result pairs the outcome (\<open>Inl\<close> the exception raised) with
  the store as the call leaves it.\<close>

definition refresh_once ::
  "(string \<Rightarrow> string option) \<Rightarrow> (string \<Rightarrow> error + row list) \<Rightarrow> (string \<Rightarrow> 'n option) \<Rightarrow> real
     \<Rightarrow> ('n::{linorder,zero}) DataStore \<Rightarrow> (error + unit) \<times> 'n DataStore" where
  "refresh_once getenv fetch_csv float_of now store =
     (let pricelist_url = getenv ''PRICELIST_CSV_URL'';
          volume_url = getenv ''VOLUME_CSV_URL'';
          uplifts_url = getenv ''UPLIFTS_CSV_URL'';
          use_case_mappings_url = getenv ''USE_CASE_MAPPINGS_CSV_URL''
      in if unset pricelist_url \<or> unset volume_url \<or> unset uplifts_url
            \<or> unset use_case_mappings_url
         then (Inl (RuntimeError missing_env_message), store)
         else
           (case
              and_then (fetch_csv (the pricelist_url)) (\<lambda>price_rows.
              and_then (fetch_csv (the volume_url)) (\<lambda>volume_rows.
              and_then (fetch_csv (the uplifts_url)) (\<lambda>uplift_rows.
              and_then (fetch_csv (the use_case_mappings_url)) (\<lambda>use_case_rows.
              and_then (traverse (parse_sku float_of) price_rows) (\<lambda>sku_list.
              and_then (traverse (parse_volume_discount float_of) volume_rows) (\<lambda>discount_list.
              and_then (traverse (parse_uplift float_of) uplift_rows) (\<lambda>uplift_list.
              and_then (parse_use_case_mappings float_of use_case_rows) (\<lambda>parsed_use_cases.
                Inr (dict_of (map (\<lambda>s. (sku_code s, s)) sku_list),
                     sort_key min_units discount_list,
                     dict_of (map (\<lambda>u. (uplift_name u, u)) uplift_list),
                     parsed_use_cases)))))))))
            of
              Inl e \<Rightarrow> (Inl e, store)
            | Inr (parsed_skus, parsed_discounts, parsed_uplifts,
                   parsed_use_case_mappings, parsed_use_cases) \<Rightarrow>
                (Inr (),
                 store\<lparr>skus := parsed_skus,
                       volume_discounts := parsed_discounts,
                       uplifts := parsed_uplifts,
                       use_case_mappings := parsed_use_case_mappings,
                       use_cases := parsed_use_cases,
                       last_refresh_utc := Some now\<rparr>)))"

text \<open>The condition of \<^verbatim>\<open>DataStore.ensure_fresh\<close>, at the reading \<open>now\<close> of the clock.\<close>

definition stale :: "real \<Rightarrow> 'n DataStore \<Rightarrow> bool" where
  "stale now store =
     (case last_refresh_utc store of
        None \<Rightarrow> True
      | Some last_refresh \<Rightarrow> now - last_refresh \<ge> REFRESH_SECONDS)"

text \<open>\<^verbatim>\<open>DataStore.ensure_fresh\<close>, run by one caller with no other caller in between:
  \<open>now\<close> is its own reading of the clock, \<open>now'\<close> the one \<^verbatim>\<open>refresh_once\<close> takes when it
  ends.\<close>

definition ensure_fresh ::
  "(string \<Rightarrow> string option) \<Rightarrow> (string \<Rightarrow> error + row list) \<Rightarrow> (string \<Rightarrow> 'n option) \<Rightarrow> real
     \<Rightarrow> real \<Rightarrow> ('n::{linorder,zero}) DataStore \<Rightarrow> (error + unit) \<times> 'n DataStore" where
  "ensure_fresh getenv fetch_csv float_of now now' store =
     (if stale now store
      then refresh_once getenv fetch_csv float_of now' store
      else (Inr (), store))"

subsection \<open>Concurrent callers\<close>

text \<open>
  The coroutines run on one event loop and give way to each other only at an
  \<^verbatim>\<open>await\<close> that suspends. \<^verbatim>\<open>ensure_fresh\<close> and \<^verbatim>\<open>refresh_once\<close> have two such points:
  the acquisition of \<^verbatim>\<open>_refresh_lock\<close>, where a caller waits while the lock is held,
  and the \<^verbatim>\<open>asyncio.gather\<close> of the four fetches, where the holder of the lock waits
  for its batch of requests. A caller is therefore at one of four places.
\<close>

datatype pc =
    Idle       \<comment> \<open>has not called yet\<close>
  | Waiting    \<comment> \<open>in \<^verbatim>\<open>refresh_once\<close>, before \<^verbatim>\<open>async with self._refresh_lock\<close> is entered\<close>
  | Fetching   \<comment> \<open>holds the lock; its batch of four fetches is in flight\<close>
  | Done       \<comment> \<open>has returned or raised\<close>

text \<open>The store, the state of \<^verbatim>\<open>_refresh_lock\<close>, the place of every caller, and the
  number of fetch batches issued so far.\<close>

record 'n system =
  cache :: "'n DataStore"
  lock_held :: bool
  callers :: "pc list"
  fetch_batches :: nat

text \<open>
  One atomic step of one caller \<open>i\<close>, for the configuration \<open>getenv\<close>.
  \<^item> \<open>call_fresh\<close>: \<^verbatim>\<open>ensure_fresh\<close> reads the clock, finds the store fresh and returns.
  \<^item> \<open>call_stale\<close>: \<^verbatim>\<open>ensure_fresh\<close> reads the clock, finds the store stale and calls
    \<^verbatim>\<open>refresh_once\<close>.
  \<^item> \<open>call_refresh\<close>: a direct call of \<^verbatim>\<open>refresh_once\<close>.
  \<^item> \<open>acquire_raise\<close>: the lock is free and a configuration value is missing;
    \<^verbatim>\<open>refresh_once\<close> takes the lock, raises and releases it, without suspending.
  \<^item> \<open>acquire_fetch\<close>: the lock is free; \<^verbatim>\<open>refresh_once\<close> takes it and issues its batch
    of fetches. There is no test of staleness between the acquisition and the
    fetches.
  \<^item> \<open>complete\<close>: the batch of the holder ends with the results \<open>fetch_csv\<close> at the time
    \<open>now\<close>; the rest of \<^verbatim>\<open>refresh_once\<close> runs and the lock is released.
  A caller that finds the lock free passes from \<open>Waiting\<close> to the next place in the
  same turn of the event loop; the relation allows other callers to step in between,
  which only adds interleavings.
\<close>

inductive step ::
  "(string \<Rightarrow> string option) \<Rightarrow> (string \<Rightarrow> 'n option)
     \<Rightarrow> ('n::{linorder,zero}) system \<Rightarrow> 'n system \<Rightarrow> bool"
  for getenv :: "string \<Rightarrow> string option" and float_of :: "string \<Rightarrow> 'n option" where
  call_fresh:
    "i < length (callers s) \<Longrightarrow> callers s ! i = Idle \<Longrightarrow> \<not> stale now (cache s) \<Longrightarrow>
     step getenv float_of s (s\<lparr>callers := (callers s)[i := Done]\<rparr>)"
| call_stale:
    "i < length (callers s) \<Longrightarrow> callers s ! i = Idle \<Longrightarrow> stale now (cache s) \<Longrightarrow>
     step getenv float_of s (s\<lparr>callers := (callers s)[i := Waiting]\<rparr>)"
| call_refresh:
    "i < length (callers s) \<Longrightarrow> callers s ! i = Idle \<Longrightarrow>
     step getenv float_of s (s\<lparr>callers := (callers s)[i := Waiting]\<rparr>)"
| acquire_raise:
    "i < length (callers s) \<Longrightarrow> callers s ! i = Waiting \<Longrightarrow> \<not> lock_held s \<Longrightarrow>
     unset (getenv ''PRICELIST_CSV_URL'') \<or> unset (getenv ''VOLUME_CSV_URL'')
       \<or> unset (getenv ''UPLIFTS_CSV_URL'') \<or> unset (getenv ''USE_CASE_MAPPINGS_CSV_URL'') \<Longrightarrow>
     step getenv float_of s (s\<lparr>callers := (callers s)[i := Done]\<rparr>)"
| acquire_fetch:
    "i < length (callers s) \<Longrightarrow> callers s ! i = Waiting \<Longrightarrow> \<not> lock_held s \<Longrightarrow>
     \<not> (unset (getenv ''PRICELIST_CSV_URL'') \<or> unset (getenv ''VOLUME_CSV_URL'')
         \<or> unset (getenv ''UPLIFTS_CSV_URL'') \<or> unset (getenv ''USE_CASE_MAPPINGS_CSV_URL'')) \<Longrightarrow>
     step getenv float_of s
       (s\<lparr>lock_held := True, callers := (callers s)[i := Fetching],
          fetch_batches := Suc (fetch_batches s)\<rparr>)"
| complete:
    "i < length (callers s) \<Longrightarrow> callers s ! i = Fetching \<Longrightarrow>
     refresh_once getenv fetch_csv float_of now (cache s) = (outcome, store') \<Longrightarrow>
     step getenv float_of s
       (s\<lparr>cache := store', lock_held := False, callers := (callers s)[i := Done]\<rparr>)"

text \<open>The number of callers whose batch of fetches is in flight.\<close>

definition in_flight :: "'n system \<Rightarrow> nat" where
  "in_flight s = length (filter (\<lambda>c. c = Fetching) (callers s))"

text \<open>The four URLs of the configuration are set and not empty, so that a caller who
  has the lock goes on to the fetches.\<close>

definition configured :: "(string \<Rightarrow> string option) \<Rightarrow> bool" where
  "configured getenv =
     (\<not> (unset (getenv ''PRICELIST_CSV_URL'') \<or> unset (getenv ''VOLUME_CSV_URL'')
         \<or> unset (getenv ''UPLIFTS_CSV_URL'') \<or> unset (getenv ''USE_CASE_MAPPINGS_CSV_URL'')))"

subsection \<open>The discount selection in the specification's words\<close>

text \<open>The fractions of the tiers that qualify at \<open>relative_units\<close>, as the specification
  words the selection: the entries whose \<open>min_units\<close> is at most \<open>relative_units\<close>.\<close>

definition qualifying :: "'n::linorder VolumeDiscount list \<Rightarrow> 'n \<Rightarrow> 'n set" where
  "qualifying ds ru = set (map discount_decimal (filter (\<lambda>d. min_units d \<le> ru) ds))"

subsection \<open>The use-case quote in the specification's words\<close>

text \<open>The units per hour of a SKU for a use case: the entry of its row, \<open>0\<close> when the
  row has none.\<close>

abbreviation rate :: "(string \<times> 'n::zero) list \<Rightarrow> string \<Rightarrow> 'n" where
  "rate per_use_case uc \<equiv> (case map_of per_use_case uc of None \<Rightarrow> 0 | Some v \<Rightarrow> v)"

text \<open>An entry of the mapping table takes part in a use-case quote when its
  \<open>units_total = units_per_hour * hours\<close> is strictly positive (\<open>units_per_hour\<close> being \<open>0\<close>
  when the use case has no entry for the SKU) and its SKU code is in the SKU set.
  The numbers are linearly ordered here.\<close>

definition is_included ::
  "('n::{linorder,zero,times}) DataStore \<Rightarrow> string \<Rightarrow> 'n \<Rightarrow> string \<times> (string \<times> 'n) list \<Rightarrow> bool" where
  "is_included store uc hrs entry =
     (0 < rate (snd entry) uc * hrs \<and> fst entry \<in> fst ` set (skus store))"

definition included ::
  "('n::{linorder,zero,times}) DataStore \<Rightarrow> string \<Rightarrow> 'n
     \<Rightarrow> (string \<times> (string \<times> 'n) list) list" where
  "included store uc hrs = filter (is_included store uc hrs) (use_case_mappings store)"

text \<open>The line of an entry: its cost is the \<open>final_cost\<close> of the SKU quote for the
  quantity \<open>units_total\<close>.\<close>

definition entry_line ::
  "('n::{linorder,zero,one,plus,minus,times,inverse}) DataStore \<Rightarrow> string \<Rightarrow> 'n
     \<Rightarrow> string list option \<Rightarrow> string \<times> (string \<times> 'n) list \<Rightarrow> error + 'n BreakdownLine" where
  "entry_line store uc hrs names_opt entry =
     (case calculate_sku_quote store (fst entry) (rate (snd entry) uc * hrs) names_opt of
        Inl e \<Rightarrow> Inl e
      | Inr q \<Rightarrow>
          Inr \<lparr>sku_code_l = fst entry,
               sku_name = fst (snd (sku q)),
               unit_label_l = snd (snd (sku q)),
               units_per_hour = rate (snd entry) uc,
               units_total = rate (snd entry) uc * hrs,
               cost_usd = final_cost q\<rparr>)"

text \<open>The lines of the included entries, in the order of the table; the first SKU quote
  that fails is the failure of the whole.\<close>

definition included_lines ::
  "('n::{linorder,zero,one,plus,minus,times,inverse}) DataStore \<Rightarrow> string \<Rightarrow> 'n
     \<Rightarrow> string list option \<Rightarrow> error + 'n BreakdownLine list" where
  "included_lines store uc hrs names_opt =
     traverse (entry_line store uc hrs names_opt) (included store uc hrs)"

subsection \<open>The use-case mapping table in the specification's words\<close>

text \<open>The SKU code of a row, trimmed as the parse trims it; a row is retained when it
  is not empty. The use-case names are the headers of the first row but the key
  column.\<close>

definition sku_code_of :: "row \<Rightarrow> string" where
  "sku_code_of r = strip (get_default r ''SKU Code'' [])"

definition header_use_cases :: "row list \<Rightarrow> string list" where
  "header_use_cases rows =
     (case rows of [] \<Rightarrow> [] | r0 # _ \<Rightarrow> filter (\<lambda>h. h \<noteq> ''SKU Code'') (map fst r0))"

subsection \<open>Numbers with a NaN\<close>

text \<open>The real numbers and one more value, \<open>NaN\<close>, with the comparisons and the
  arithmetic of IEEE 754 on it: every comparison with \<open>NaN\<close> is false, every operation
  on \<open>NaN\<close> gives \<open>NaN\<close>. (Python's \<^verbatim>\<open>float("nan")\<close>, which \<^verbatim>\<open>_parse_float\<close> returns for
  the cell \<^verbatim>\<open>nan\<close>, is such a value.)\<close>

datatype pyfloat = NaN | Num real

instantiation pyfloat :: "{ord,zero,one,plus,minus,times,inverse}"
begin

definition zero_pyfloat :: pyfloat where
  "zero_pyfloat = Num 0"

definition one_pyfloat :: pyfloat where
  "one_pyfloat = Num 1"

definition less_eq_pyfloat :: "pyfloat \<Rightarrow> pyfloat \<Rightarrow> bool" where
  "less_eq_pyfloat x y = (case (x, y) of (Num a, Num b) \<Rightarrow> a \<le> b | _ \<Rightarrow> False)"

definition less_pyfloat :: "pyfloat \<Rightarrow> pyfloat \<Rightarrow> bool" where
  "less_pyfloat x y = (case (x, y) of (Num a, Num b) \<Rightarrow> a < b | _ \<Rightarrow> False)"

definition plus_pyfloat :: "pyfloat \<Rightarrow> pyfloat \<Rightarrow> pyfloat" where
  "plus_pyfloat x y = (case (x, y) of (Num a, Num b) \<Rightarrow> Num (a + b) | _ \<Rightarrow> NaN)"

definition minus_pyfloat :: "pyfloat \<Rightarrow> pyfloat \<Rightarrow> pyfloat" where
  "minus_pyfloat x y = (case (x, y) of (Num a, Num b) \<Rightarrow> Num (a - b) | _ \<Rightarrow> NaN)"

definition times_pyfloat :: "pyfloat \<Rightarrow> pyfloat \<Rightarrow> pyfloat" where
  "times_pyfloat x y = (case (x, y) of (Num a, Num b) \<Rightarrow> Num (a * b) | _ \<Rightarrow> NaN)"

definition divide_pyfloat :: "pyfloat \<Rightarrow> pyfloat \<Rightarrow> pyfloat" where
  "divide_pyfloat x y = (case (x, y) of (Num a, Num b) \<Rightarrow> Num (a / b) | _ \<Rightarrow> NaN)"

definition inverse_pyfloat :: "pyfloat \<Rightarrow> pyfloat" where
  "inverse_pyfloat x = (case x of Num a \<Rightarrow> Num (inverse a) | NaN \<Rightarrow> NaN)"

instance ..

end

subsection \<open>Example data\<close>

text \<open>The store and the request of the repository's test
  \<^verbatim>\<open>test_use_case_quote_end_to_end_multiplier_behavior\<close>.\<close>

definition test_store :: "real DataStore" where
  "test_store =
     \<lparr>skus =
        [(''SKU-A'', \<lparr>sku_code = ''SKU-A'', name = ''A'', unit_label = ''Tokens'',
                      base_unit_price = 2, unit = 1\<rparr>),
         (''SKU-B'', \<lparr>sku_code = ''SKU-B'', name = ''B'', unit_label = ''Jobs'',
                      base_unit_price = 1, unit = 2\<rparr>)],
      volume_discounts = [\<lparr>min_units = 10, discount_decimal = 0.1\<rparr>],
      uplifts = [(''Default'', \<lparr>uplift_name = ''Default'', percent_decimal = 0.2, enabled = True\<rparr>)],
      use_case_mappings =
        [(''SKU-A'', [(''Early-Stage AI Startup'', 3)]),
         (''SKU-B'', [(''Early-Stage AI Startup'', 1)])],
      use_cases = [''Early-Stage AI Startup''],
      last_refresh_utc = None\<rparr>"

definition use_case_request :: "real \<Rightarrow> string list option \<Rightarrow> real QuoteRequest" where
  "use_case_request hrs names_opt =
     \<lparr>mode = ''use_case'', sku_code_req = None, quantity = None,
      use_case = Some ''Early-Stage AI Startup'', hours = Some hrs, customer = None,
      gpu_type = None, region = None, rank_results_by = None, uplift_names = names_opt\<rparr>"

text \<open>The discount tiers of the specification's example, and a table whose only
  tier carries a negative fraction.\<close>

definition tiers_store :: "real DataStore" where
  "tiers_store =
     test_store\<lparr>volume_discounts :=
       [\<lparr>min_units = 10, discount_decimal = 0.05\<rparr>,
        \<lparr>min_units = 50, discount_decimal = 0.10\<rparr>,
        \<lparr>min_units = 100, discount_decimal = 0.08\<rparr>]\<rparr>"

definition negative_store :: "real DataStore" where
  "negative_store =
     test_store\<lparr>volume_discounts := [\<lparr>min_units = 10, discount_decimal = - 0.05\<rparr>]\<rparr>"

text \<open>A store with an enabled and a disabled uplift.\<close>

definition uplift_store :: "real DataStore" where
  "uplift_store =
     test_store\<lparr>uplifts :=
       [(''Default'', \<lparr>uplift_name = ''Default'', percent_decimal = 0.2, enabled = True\<rparr>),
        (''Rush'', \<lparr>uplift_name = ''Rush'', percent_decimal = 0.5, enabled = False\<rparr>)]\<rparr>"

text \<open>A store whose mapping table has a row of rate \<open>0\<close> and a row of a SKU that is
  not in the SKU set.\<close>

definition stale_store :: "real DataStore" where
  "stale_store =
     test_store\<lparr>use_case_mappings :=
       [(''SKU-A'', [(''Early-Stage AI Startup'', 0)]),
        (''SKU-X'', [(''Early-Stage AI Startup'', 5)])]\<rparr>"

text \<open>The test's store with the two rows of the mapping table exchanged.\<close>

definition swapped_store :: "real DataStore" where
  "swapped_store =
     test_store\<lparr>use_case_mappings :=
       [(''SKU-B'', [(''Early-Stage AI Startup'', 1)]),
        (''SKU-A'', [(''Early-Stage AI Startup'', 3)])]\<rparr>"

text \<open>What \<^verbatim>\<open>float\<close> returns on the numerals of the examples; any other string stands
  for one that \<^verbatim>\<open>float\<close> rejects.\<close>

definition example_float :: "string \<Rightarrow> real option" where
  "example_float s =
     (if s = ''1'' then Some 1 else if s = ''2'' then Some 2 else if s = ''3'' then Some 3
      else if s = ''1200.5'' then Some 1200.5 else if s = ''10'' then Some 10
      else if s = ''0.1'' then Some 0.1 else if s = ''0.2'' then Some 0.2 else None)"

text \<open>The rows of the repository's test
  \<^verbatim>\<open>test_parse_use_case_mappings_headers_and_numeric_coercion\<close>; two rows of one SKU
  code; a row with a cell that is no number.\<close>

definition test_rows :: "row list" where
  "test_rows =
     [[(''SKU Code'', ''SKU-A''), (''Early-Stage AI Startup'', ''1,200.5''),
       (''Academic Research'', [])],
      [(''SKU Code'', ''SKU-B''), (''Early-Stage AI Startup'', []),
       (''Academic Research'', ''3'')]]"

definition duplicate_rows :: "row list" where
  "duplicate_rows =
     [[(''SKU Code'', ''SKU-A''), (''Research'', ''1'')],
      [(''SKU Code'', ''SKU-A''), (''Research'', ''2'')]]"

definition malformed_rows :: "row list" where
  "malformed_rows = [[(''SKU Code'', ''SKU-A''), (''Research'', ''abc'')]]"

text \<open>A configuration, and two servers. The first serves the tables of which the
  test's store is the parse; the second fails on the table of uplifts.\<close>

definition example_env :: "string \<Rightarrow> string option" where
  "example_env =
     map_of [(''PRICELIST_CSV_URL'', ''price''), (''VOLUME_CSV_URL'', ''volume''),
             (''UPLIFTS_CSV_URL'', ''uplifts''), (''USE_CASE_MAPPINGS_CSV_URL'', ''mappings'')]"

definition example_fetch :: "string \<Rightarrow> error + row list" where
  "example_fetch url =
     (if url = ''price'' then
        Inr [[(''SKU Code'', ''SKU-A''), (''Name'', ''A''), (''Unit Label'', ''Tokens''),
              (''Base Unit Price (USD)'', ''$2''), (''Unit'', ''1'')],
             [(''SKU Code'', ''SKU-B''), (''Name'', ''B''), (''Unit Label'', ''Jobs''),
              (''Base Unit Price (USD)'', ''$1''), (''Unit'', ''2'')]]
      else if url = ''volume'' then
        Inr [[(''Min Units (Relative)'', ''10''), (''Discount % (as decimal)'', ''0.1'')]]
      else if url = ''uplifts'' then
        Inr [[(''Uplift Name'', ''Default''), (''Percent (as decimal)'', ''0.2''),
              (''Enabled (TRUE/FALSE)'', ''TRUE'')]]
      else if url = ''mappings'' then
        Inr [[(''SKU Code'', ''SKU-A''), (''Early-Stage AI Startup'', ''3'')],
             [(''SKU Code'', ''SKU-B''), (''Early-Stage AI Startup'', ''1'')]]
      else Inl (FetchError url))"

definition failing_fetch :: "string \<Rightarrow> error + row list" where
  "failing_fetch url =
     (if url = ''uplifts'' then Inl (FetchError ''uplifts'') else example_fetch url)"

text \<open>Two callers of \<^verbatim>\<open>ensure_fresh\<close> on a store that was never refreshed.\<close>

definition two_callers :: "real system" where
  "two_callers =
     \<lparr>cache = init_store, lock_held = False, callers = [Idle, Idle], fetch_batches = 0\<rparr>"

text \<open>The specification's example of a SKU quote, with three discount tiers and
  three uplifts, two of them enabled, whose fractions add up to \<open>0.2\<close>.\<close>

definition spec_example_store :: "real DataStore" where
  "spec_example_store =
     test_store
       \<lparr>volume_discounts :=
          [\<lparr>min_units = 5, discount_decimal = 0.05\<rparr>,
           \<lparr>min_units = 10, discount_decimal = 0.1\<rparr>,
           \<lparr>min_units = 100, discount_decimal = 0.3\<rparr>],
        uplifts :=
          [(''Default'', \<lparr>uplift_name = ''Default'', percent_decimal = 0.15, enabled = True\<rparr>),
           (''Rush'', \<lparr>uplift_name = ''Rush'', percent_decimal = 0.5, enabled = False\<rparr>),
           (''Support'', \<lparr>uplift_name = ''Support'', percent_decimal = 0.05, enabled = True\<rparr>)]\<rparr>"






text \<open>Rows whose cells carry whitespace outside ASCII: a SKU code between a no-break
  space (U+00A0) and a space; a SKU code that is a no-break space alone; a cell that
  is an em space (U+2003).\<close>

definition padded_rows :: "row list" where
  "padded_rows =
     [[(''SKU Code'', [CHR 0xC2, CHR 0xA0] @ ''SKU-A '' ), (''Research'', ''1'')],
      [(''SKU Code'', [CHR 0xC2, CHR 0xA0]), (''Research'', ''abc'')],
      [(''SKU Code'', ''SKU-B''), (''Research'', [CHR 0xE2, CHR 0x80, CHR 0x83])]]"

section \<open>Verified properties\<close>

subsection \<open>Discount selection\<close>

text \<open>The loop keeps a running maximum that starts from \<open>0\<close>.\<close>

lemma Max_insert_max:
  "finite Q \<Longrightarrow> Max (insert (max a b) Q) = Max (insert a (insert b Q))"
  by (cases "Q = {}") (simp_all add: max.assoc)

lemma discount_loop_Max:
  "discount_loop ru ds acc = Max (insert acc (qualifying ds ru))"
proof (induction ds arbitrary: acc)
  case Nil
  then show ?case by (simp add: qualifying_def)
next
  case (Cons d ds)
  show ?case
  proof (cases "min_units d \<le> ru")
    case True
    then have eq: "qualifying (d # ds) ru = insert (discount_decimal d) (qualifying ds ru)"
      by (simp add: qualifying_def)
    have "(if discount_decimal d > acc then discount_decimal d else acc) = max acc (discount_decimal d)"
      by (auto simp: max_def)
    then have "discount_loop ru (d # ds) acc = Max (insert (max acc (discount_decimal d)) (qualifying ds ru))"
      using True Cons.IH by simp
    also have "\<dots> = Max (insert acc (insert (discount_decimal d) (qualifying ds ru)))"
      by (rule Max_insert_max) (simp add: qualifying_def)
    finally show ?thesis by (simp only: eq)
  next
    case False
    then have eq: "qualifying (d # ds) ru = qualifying ds ru"
      by (simp add: qualifying_def)
    show ?thesis using False Cons.IH[of acc] by (simp only: eq) simp
  qed
qed

lemma calculate_sku_quote_Inr:
  assumes "calculate_sku_quote st code qty names = Inr q"
  obtains s sel where "map_of (skus st) code = Some s" "unit s \<noteq> 0"
    "resolve_uplifts st names = Inr sel"
    "q = \<lparr>sku = (sku_code s, name s, unit_label s),
          quantity_raw = qty,
          unit_multiplier = unit s,
          relative_units = qty / unit s,
          base_unit_price_q = base_unit_price s,
          base_cost = qty / unit s * base_unit_price s,
          discount_decimal_q = discount_loop (qty / unit s) (volume_discounts st) 0,
          discounted_cost = qty / unit s * base_unit_price s * (1 - discount_loop (qty / unit s) (volume_discounts st) 0),
          uplift_decimal = py_sum (map percent_decimal sel),
          final_cost = qty / unit s * base_unit_price s * (1 - discount_loop (qty / unit s) (volume_discounts st) 0) * (1 + py_sum (map percent_decimal sel)),
          applied_uplifts = map (\<lambda>u. (uplift_name u, percent_decimal u)) sel\<rparr>"
  using assms unfolding calculate_sku_quote_def Let_def
  by (auto split: option.splits if_splits sum.splits)

text \<open>
  Claim C1, as amended. Whatever the order of the discount list, the discount fraction
  that \<open>calculate_sku_quote\<close> applies is the maximum of \<open>0\<close> and the fractions of the
  entries whose \<open>min_units\<close> is at most \<open>relative_units\<close>. So it is \<open>0\<close> when no entry
  qualifies, and it is the maximum qualifying fraction as soon as one qualifying
  fraction is not negative.
\<close>

theorem sku_quote_discount:
  assumes "calculate_sku_quote st code qty names = Inr q"
  shows "(let Q = qualifying (volume_discounts st) (relative_units q) in
          discount_decimal_q q = Max (insert 0 Q) \<and>
          (Q = {} \<longrightarrow> discount_decimal_q q = 0) \<and>
          ((\<exists>x\<in>Q. 0 \<le> x) \<longrightarrow> discount_decimal_q q = Max Q))"
proof -
  define Q where "Q = qualifying (volume_discounts st) (relative_units q)"
  have fin: "finite Q" by (simp add: Q_def qualifying_def)
  have m: "discount_decimal_q q = Max (insert 0 Q)"
    using assms unfolding Q_def by (elim calculate_sku_quote_Inr) (simp add: discount_loop_Max)
  have e: "discount_decimal_q q = 0" if "Q = {}"
    using m that by simp
  have p: "discount_decimal_q q = Max Q" if "\<exists>x\<in>Q. 0 \<le> x"
  proof -
    from that obtain x where x: "x \<in> Q" "0 \<le> x" by blast
    then have "Q \<noteq> {}" by blast
    moreover have "0 \<le> Max Q" using x fin by (meson Max_ge order_trans)
    ultimately show ?thesis using m fin by (simp add: max_def)
  qed
  show ?thesis using m e p unfolding Let_def Q_def by blast
qed

text \<open>The quotes of the two example tables at \<open>relative_units = 60\<close>.\<close>

lemma tiers_quote:
  "calculate_sku_quote tiers_store ''SKU-A'' 60 (Some []) =
     Inr \<lparr>sku = (''SKU-A'', ''A'', ''Tokens''), quantity_raw = 60, unit_multiplier = 1,
          relative_units = 60, base_unit_price_q = 2, base_cost = 120,
          discount_decimal_q = 0.1, discounted_cost = 108, uplift_decimal = 0,
          final_cost = 108, applied_uplifts = []\<rparr>"
  by (simp add: calculate_sku_quote_def tiers_store_def test_store_def resolve_uplifts_def py_sum_def)

lemma negative_quote:
  "calculate_sku_quote negative_store ''SKU-A'' 60 (Some []) =
     Inr \<lparr>sku = (''SKU-A'', ''A'', ''Tokens''), quantity_raw = 60, unit_multiplier = 1,
          relative_units = 60, base_unit_price_q = 2, base_cost = 120,
          discount_decimal_q = 0, discounted_cost = 120, uplift_decimal = 0,
          final_cost = 120, applied_uplifts = []\<rparr>"
  by (simp add: calculate_sku_quote_def negative_store_def test_store_def resolve_uplifts_def py_sum_def)

text \<open>With the tiers \<open>(10, 0.05)\<close>, \<open>(50, 0.10)\<close>, \<open>(100, 0.08)\<close> and 60 relative units the
  tiers at 10 and 50 qualify and the discount is \<open>0.10\<close>.\<close>

theorem sku_quote_discount_witness:
  "\<exists>q. calculate_sku_quote tiers_store ''SKU-A'' 60 (Some []) = Inr q \<and>
       relative_units q = 60 \<and>
       qualifying (volume_discounts tiers_store) 60 = {0.05, 0.10} \<and>
       discount_decimal_q q = 0.10 \<and>
       discount_decimal_q q = Max (qualifying (volume_discounts tiers_store) (relative_units q))"
proof -
  let ?q = "\<lparr>sku = (''SKU-A'', ''A'', ''Tokens''), quantity_raw = 60, unit_multiplier = 1,
          relative_units = 60, base_unit_price_q = 2, base_cost = 120,
          discount_decimal_q = 0.1, discounted_cost = 108, uplift_decimal = 0,
          final_cost = 108, applied_uplifts = []\<rparr> :: real SkuQuote"
  have Q: "qualifying (volume_discounts tiers_store) 60 = {0.05, 0.10}"
    by (simp add: qualifying_def tiers_store_def)
  have "discount_decimal_q ?q = Max (qualifying (volume_discounts tiers_store) (relative_units ?q))"
    using sku_quote_discount [OF tiers_quote] Q by (simp add: Let_def)
  then show ?thesis using tiers_quote Q by simp
qed

text \<open>With the single tier \<open>(10, -0.05)\<close> and 60 relative units the tier qualifies,
  the maximum qualifying fraction is \<open>-0.05\<close>, and the discount applied is \<open>0\<close>.\<close>

theorem sku_quote_discount_counterexample:
  "\<exists>q. calculate_sku_quote negative_store ''SKU-A'' 60 (Some []) = Inr q \<and>
       sorted (map min_units (volume_discounts negative_store)) \<and>
       relative_units q = 60 \<and>
       qualifying (volume_discounts negative_store) (relative_units q) = {- 0.05} \<and>
       discount_decimal_q q = 0 \<and>
       discount_decimal_q q \<noteq> Max (qualifying (volume_discounts negative_store) (relative_units q))"
proof -
  have Q: "qualifying (volume_discounts negative_store) 60 = {- 0.05}"
    by (simp add: qualifying_def negative_store_def)
  show ?thesis using negative_quote Q by (simp add: negative_store_def)
qed

subsection \<open>The SKU quote\<close>

text \<open>
  Claim C2. For a SKU of the store whose unit size is not zero, and a selection of
  uplifts that resolves, \<open>calculate_sku_quote\<close> returns a quote with
  \<open>relative_units = quantity / unit\<close>, \<open>base_cost = relative_units * base_unit_price\<close>,
  \<open>discounted_cost = base_cost * (1 - discount)\<close>, where the discount is the greatest of
  \<open>0\<close> and the fractions of the qualifying tiers, and
  \<open>final_cost = discounted_cost * (1 + uplift_decimal)\<close>, where \<open>uplift_decimal\<close> is the sum
  of the fractions of the selected uplifts, added from the left to \<open>0\<close>.
\<close>

theorem sku_quote_formulas:
  fixes st :: "('n::{linorder,zero,one,plus,minus,times,inverse}) DataStore"
  assumes "map_of (skus st) code = Some s" and "unit s \<noteq> 0"
    and "resolve_uplifts st names = Inr sel"
  shows "\<exists>q. calculate_sku_quote st code qty names = Inr q \<and>
           relative_units q = qty / unit s \<and>
           base_cost q = relative_units q * base_unit_price s \<and>
           discount_decimal_q q =
             Max (insert 0 (qualifying (volume_discounts st) (relative_units q))) \<and>
           discounted_cost q = base_cost q * (1 - discount_decimal_q q) \<and>
           uplift_decimal q = foldl (+) 0 (map percent_decimal sel) \<and>
           final_cost q = discounted_cost q * (1 + foldl (+) 0 (map percent_decimal sel))"
  using assms by (simp add: calculate_sku_quote_def Let_def discount_loop_Max py_sum_def)

text \<open>The specification's example: price 2, unit 1 and quantity 30 give 30 relative
  units and the base cost 60; of the tiers at 5, 10 and 100 units the first two
  qualify and the discount is 0.1, so the discounted cost is 54; the two enabled
  uplifts, 0.15 and 0.05, add up to 0.2 and the final cost is 64.8.\<close>

lemma spec_example_uplifts:
  "resolve_uplifts spec_example_store None =
     Inr [\<lparr>uplift_name = ''Default'', percent_decimal = 0.15, enabled = True\<rparr>,
          \<lparr>uplift_name = ''Support'', percent_decimal = 0.05, enabled = True\<rparr>]"
  by (simp add: resolve_uplifts_def spec_example_store_def)

theorem sku_quote_formulas_witness:
  "\<exists>q. calculate_sku_quote spec_example_store ''SKU-A'' 30 None = Inr q \<and>
       relative_units q = 30 \<and> base_cost q = 60 \<and>
       qualifying (volume_discounts spec_example_store) 30 = {0.05, 0.1} \<and>
       discount_decimal_q q = 0.1 \<and> discounted_cost q = 54 \<and>
       uplift_decimal q = 0.15 + 0.05 \<and> final_cost q = 64.8"
proof -
  let ?s = "\<lparr>sku_code = ''SKU-A'', name = ''A'', unit_label = ''Tokens'',
             base_unit_price = 2, unit = 1\<rparr> :: real SKU"
  have 1: "map_of (skus spec_example_store) ''SKU-A'' = Some ?s"
    by (simp add: spec_example_store_def test_store_def)
  have 2: "unit ?s \<noteq> 0" by simp
  have t: "qualifying (volume_discounts spec_example_store) 30 = {0.05, 0.1}"
    by (simp add: qualifying_def spec_example_store_def)
  from sku_quote_formulas [OF 1 2 spec_example_uplifts, of 30]
  obtain q where q: "calculate_sku_quote spec_example_store ''SKU-A'' 30 None = Inr q"
    "relative_units q = 30 / unit ?s"
    "base_cost q = relative_units q * base_unit_price ?s"
    "discount_decimal_q q =
       Max (insert 0 (qualifying (volume_discounts spec_example_store) (relative_units q)))"
    "discounted_cost q = base_cost q * (1 - discount_decimal_q q)"
    "uplift_decimal q = foldl (+) 0 (map percent_decimal
       [\<lparr>uplift_name = ''Default'', percent_decimal = 0.15, enabled = True\<rparr>,
        \<lparr>uplift_name = ''Support'', percent_decimal = 0.05, enabled = True\<rparr>])"
    "final_cost q = discounted_cost q * (1 + foldl (+) 0 (map percent_decimal
       [\<lparr>uplift_name = ''Default'', percent_decimal = 0.15, enabled = True\<rparr>,
        \<lparr>uplift_name = ''Support'', percent_decimal = 0.05, enabled = True\<rparr>]))"
    by blast
  have r: "relative_units q = 30" using q(2) by simp
  have b: "base_cost q = 60" using q(3) r by simp
  have d: "discount_decimal_q q = 0.1" using q(4) r t by simp
  have c: "discounted_cost q = 54" using q(5) b d by simp
  have u: "uplift_decimal q = 0.15 + 0.05" using q(6) by simp
  have f: "final_cost q = 64.8" using q(7) c by simp
  show ?thesis using q(1) r b t d c u f by blast
qed

subsection \<open>Resolving uplift names\<close>

lemma traverse_getitem:
  "\<forall>n\<in>set names. map_of d n \<noteq> None \<Longrightarrow>
   \<exists>r. traverse (getitem d) names = Inr r \<and> map Some r = map (map_of d) names"
  by (induction names) (auto simp: getitem_def)

lemma filter_missing_Nil:
  "filter (\<lambda>n. map_of d n = None) names = [] \<longleftrightarrow> (\<forall>n\<in>set names. map_of d n \<noteq> None)"
  by (simp add: filter_empty_conv)

text \<open>
  Claim C4. Without names, \<open>resolve_uplifts\<close> returns the uplifts of the store that are
  flagged enabled. With names, of which at least one is not a key of the store's
  uplifts, it fails with the error 400 that lists the absent names (all of them, in
  input order); with names that are all keys, it returns the uplift of each name, in
  input order, one per occurrence, whatever the \<open>enabled\<close> flags.
\<close>

theorem resolve_uplifts_cases:
  "resolve_uplifts st None = Inr (filter enabled (map snd (uplifts st))) \<and>
   ((\<exists>n\<in>set names. map_of (uplifts st) n = None) \<longrightarrow>
      resolve_uplifts st (Some names) =
        Inl (HTTPException 400
               (Unknown_uplifts (filter (\<lambda>n. n \<notin> fst ` set (uplifts st)) names)))) \<and>
   ((\<forall>n\<in>set names. map_of (uplifts st) n \<noteq> None) \<longrightarrow>
      (\<exists>r. resolve_uplifts st (Some names) = Inr r \<and>
           map Some r = map (map_of (uplifts st)) names))"
proof -
  have a: "resolve_uplifts st None = Inr (filter enabled (map snd (uplifts st)))"
    by (simp add: resolve_uplifts_def)
  have m: "filter (\<lambda>n. map_of (uplifts st) n = None) names = filter (\<lambda>n. n \<notin> fst ` set (uplifts st)) names"
    by (simp add: map_of_eq_None_iff)
  have b: "resolve_uplifts st (Some names) =
        Inl (HTTPException 400 (Unknown_uplifts (filter (\<lambda>n. n \<notin> fst ` set (uplifts st)) names)))"
    if "\<exists>n\<in>set names. map_of (uplifts st) n = None"
  proof -
    from that have "filter (\<lambda>n. map_of (uplifts st) n = None) names \<noteq> []"
      by (simp add: filter_empty_conv)
    then show ?thesis unfolding resolve_uplifts_def by (simp add: Let_def m)
  qed
  have c: "\<exists>r. resolve_uplifts st (Some names) = Inr r \<and>
           map Some r = map (map_of (uplifts st)) names"
    if "\<forall>n\<in>set names. map_of (uplifts st) n \<noteq> None"
  proof -
    from that have "filter (\<lambda>n. map_of (uplifts st) n = None) names = []"
      by (simp add: filter_empty_conv)
    then show ?thesis unfolding resolve_uplifts_def
      using traverse_getitem[OF that] by (simp add: Let_def)
  qed
  show ?thesis using a b c by blast
qed


text \<open>In a store whose uplifts are \<open>Default\<close> (enabled) and \<open>Rush\<close> (disabled): no
  names select \<open>Default\<close>; the names \<open>Rush, Default, Rush\<close> select three uplifts; the
  names \<open>X, Default, Y\<close> fail and list \<open>X\<close> and \<open>Y\<close>; the empty list selects nothing.\<close>

theorem resolve_uplifts_cases_witness:
  "resolve_uplifts uplift_store None =
     Inr [\<lparr>uplift_name = ''Default'', percent_decimal = 0.2, enabled = True\<rparr>] \<and>
   resolve_uplifts uplift_store (Some [''Rush'', ''Default'', ''Rush'']) =
     Inr [\<lparr>uplift_name = ''Rush'', percent_decimal = 0.5, enabled = False\<rparr>,
          \<lparr>uplift_name = ''Default'', percent_decimal = 0.2, enabled = True\<rparr>,
          \<lparr>uplift_name = ''Rush'', percent_decimal = 0.5, enabled = False\<rparr>] \<and>
   resolve_uplifts uplift_store (Some [''X'', ''Default'', ''Y'']) =
     Inl (HTTPException 400 (Unknown_uplifts [''X'', ''Y''])) \<and>
   resolve_uplifts uplift_store (Some []) = Inr []"
proof -
  have u: "uplifts uplift_store =
       [(''Default'', \<lparr>uplift_name = ''Default'', percent_decimal = 0.2, enabled = True\<rparr>),
        (''Rush'', \<lparr>uplift_name = ''Rush'', percent_decimal = 0.5, enabled = False\<rparr>)]"
    by (simp add: uplift_store_def)
  have 1: "resolve_uplifts uplift_store None =
     Inr [\<lparr>uplift_name = ''Default'', percent_decimal = 0.2, enabled = True\<rparr>]"
    using resolve_uplifts_cases [of uplift_store "[]"] by (simp add: u)
  have 2: "resolve_uplifts uplift_store (Some [''Rush'', ''Default'', ''Rush'']) =
     Inr [\<lparr>uplift_name = ''Rush'', percent_decimal = 0.5, enabled = False\<rparr>,
          \<lparr>uplift_name = ''Default'', percent_decimal = 0.2, enabled = True\<rparr>,
          \<lparr>uplift_name = ''Rush'', percent_decimal = 0.5, enabled = False\<rparr>]"
    using resolve_uplifts_cases [of uplift_store "[''Rush'', ''Default'', ''Rush'']"]
    by (auto simp: u)
  have 3: "resolve_uplifts uplift_store (Some [''X'', ''Default'', ''Y'']) =
     Inl (HTTPException 400 (Unknown_uplifts [''X'', ''Y'']))"
    using resolve_uplifts_cases [of uplift_store "[''X'', ''Default'', ''Y'']"]
    by (simp add: u)
  have 4: "resolve_uplifts uplift_store (Some []) = Inr []"
    using resolve_uplifts_cases [of uplift_store "[]"] by simp
  show ?thesis using 1 2 3 4 by simp
qed

subsection \<open>Boolean coercion\<close>

text \<open>What \<open>drop_spaces\<close> removes is a sequence of whitespace code points, and what it
  leaves does not begin with one.\<close>

lemma is_space_length: "is_space w \<Longrightarrow> length w \<in> {1, 2, 3}"
  by (auto simp: is_space_def split: list.splits)

lemma drop_spaces_decomp:
  "\<exists>ws. list_all (\<lambda>u. is_space (enc u)) ws \<and> s = concat ws @ drop_spaces enc s"
proof (induction enc s rule: drop_spaces.induct)
  case (1 enc a b c s)
  consider (one) "is_space (enc [a])"
    | (two) "\<not> is_space (enc [a])" "is_space (enc [a, b])"
    | (three) "\<not> is_space (enc [a])" "\<not> is_space (enc [a, b])" "is_space (enc [a, b, c])"
    | (none) "\<not> is_space (enc [a])" "\<not> is_space (enc [a, b])" "\<not> is_space (enc [a, b, c])"
    by blast
  then show ?case
  proof cases
    case one
    with 1(1) obtain ws where "list_all (\<lambda>u. is_space (enc u)) ws"
      "b # c # s = concat ws @ drop_spaces enc (b # c # s)" by blast
    then have "list_all (\<lambda>u. is_space (enc u)) ([a] # ws) \<and>
        a # b # c # s = concat ([a] # ws) @ drop_spaces enc (a # b # c # s)"
      using one by simp
    then show ?thesis by blast
  next
    case two
    with 1(2) obtain ws where "list_all (\<lambda>u. is_space (enc u)) ws"
      "c # s = concat ws @ drop_spaces enc (c # s)" by blast
    then have "list_all (\<lambda>u. is_space (enc u)) ([a, b] # ws) \<and>
        a # b # c # s = concat ([a, b] # ws) @ drop_spaces enc (a # b # c # s)"
      using two by simp
    then show ?thesis by blast
  next
    case three
    with 1(3) obtain ws where "list_all (\<lambda>u. is_space (enc u)) ws"
      "s = concat ws @ drop_spaces enc s" by blast
    then have "list_all (\<lambda>u. is_space (enc u)) ([a, b, c] # ws) \<and>
        a # b # c # s = concat ([a, b, c] # ws) @ drop_spaces enc (a # b # c # s)"
      using three by simp
    then show ?thesis by blast
  next
    case none
    then have "list_all (\<lambda>u. is_space (enc u)) [] \<and>
        a # b # c # s = concat [] @ drop_spaces enc (a # b # c # s)" by simp
    then show ?thesis by blast
  qed
next
  case (2 enc a b)
  consider (one) "is_space (enc [a])" "is_space (enc [b])"
    | (one') "is_space (enc [a])" "\<not> is_space (enc [b])"
    | (two) "\<not> is_space (enc [a])" "is_space (enc [a, b])"
    | (none) "\<not> is_space (enc [a])" "\<not> is_space (enc [a, b])"
    by blast
  then show ?case
  proof cases
    case one
    then have "list_all (\<lambda>u. is_space (enc u)) [[a], [b]] \<and>
        [a, b] = concat [[a], [b]] @ drop_spaces enc [a, b]" by simp
    then show ?thesis by blast
  next
    case one'
    then have "list_all (\<lambda>u. is_space (enc u)) [[a]] \<and>
        [a, b] = concat [[a]] @ drop_spaces enc [a, b]" by simp
    then show ?thesis by blast
  next
    case two
    then have "list_all (\<lambda>u. is_space (enc u)) [[a, b]] \<and>
        [a, b] = concat [[a, b]] @ drop_spaces enc [a, b]" by simp
    then show ?thesis by blast
  next
    case none
    then have "list_all (\<lambda>u. is_space (enc u)) [] \<and>
        [a, b] = concat [] @ drop_spaces enc [a, b]" by simp
    then show ?thesis by blast
  qed
next
  case (3 enc a)
  show ?case
  proof (cases "is_space (enc [a])")
    case True
    then have "list_all (\<lambda>u. is_space (enc u)) [[a]] \<and> [a] = concat [[a]] @ drop_spaces enc [a]"
      by simp
    then show ?thesis by blast
  next
    case False
    then have "list_all (\<lambda>u. is_space (enc u)) [] \<and> [a] = concat [] @ drop_spaces enc [a]"
      by simp
    then show ?thesis by blast
  qed
next
  case (4 enc)
  have "list_all (\<lambda>u. is_space (enc u)) [] \<and> [] = concat [] @ drop_spaces enc []" by simp
  then show ?case by blast
qed

lemma prefix_cases3:
  assumes "u @ r = a # b # c # s" and "length u \<in> {1, 2, 3}"
  shows "u = [a] \<or> u = [a, b] \<or> u = [a, b, c]"
proof -
  from assms(2) consider "length u = 1" | "length u = 2" | "length u = 3" by auto
  then show ?thesis
  proof cases
    case 1
    then obtain x where "u = [x]" by (cases u) auto
    then show ?thesis using assms(1) by simp
  next
    case 2
    then obtain x y where "u = [x, y]" by (cases u; cases "tl u") auto
    then show ?thesis using assms(1) by simp
  next
    case 3
    then obtain x y z where "u = [x, y, z]"
      by (cases u; cases "tl u"; cases "tl (tl u)") auto
    then show ?thesis using assms(1) by simp
  qed
qed

lemma prefix_cases2:
  assumes "u @ r = [a, b]" and "length u \<in> {1, 2, 3}"
  shows "u = [a] \<or> u = [a, b]"
proof -
  from assms(1) have "length u \<le> 2" by (metis length_append le_add1 length_Cons list.size(3) numeral_2_eq_2)
  with assms(2) consider "length u = 1" | "length u = 2" by auto
  then show ?thesis
  proof cases
    case 1
    then obtain x where "u = [x]" by (cases u) auto
    then show ?thesis using assms(1) by simp
  next
    case 2
    then obtain x y where "u = [x, y]" by (cases u; cases "tl u") auto
    then show ?thesis using assms(1) by simp
  qed
qed

lemma prefix_cases1:
  assumes "u @ r = [a]" and "length u \<in> {1, 2, 3}"
  shows "u = [a]"
  using assms by (cases u) auto

lemma drop_spaces_no_leading:
  "(\<forall>u. length (enc u) = length u) \<Longrightarrow> is_space (enc u) \<Longrightarrow> drop_spaces enc s \<noteq> u @ r"
proof (induction enc s rule: drop_spaces.induct)
  case (1 enc a b c s)
  have l: "length u \<in> {1, 2, 3}"
    using is_space_length [OF 1(5)] 1(4) by simp
  consider (one) "is_space (enc [a])"
    | (two) "\<not> is_space (enc [a])" "is_space (enc [a, b])"
    | (three) "\<not> is_space (enc [a])" "\<not> is_space (enc [a, b])" "is_space (enc [a, b, c])"
    | (none) "\<not> is_space (enc [a])" "\<not> is_space (enc [a, b])" "\<not> is_space (enc [a, b, c])"
    by blast
  then show ?case
  proof cases
    case one
    then show ?thesis using 1(1) [OF one 1(4,5)] by simp
  next
    case two
    then show ?thesis using 1(2) [OF two 1(4,5)] by simp
  next
    case three
    then show ?thesis using 1(3) [OF three 1(4,5)] by simp
  next
    case none
    show ?thesis
    proof
      assume "drop_spaces enc (a # b # c # s) = u @ r"
      then have "u @ r = a # b # c # s" using none by simp
      from prefix_cases3 [OF this l] show False using none 1(5) by auto
    qed
  qed
next
  case (2 enc a b)
  have l: "length u \<in> {1, 2, 3}"
    using is_space_length [OF 2(3)] 2(2) by simp
  consider (one) "is_space (enc [a])"
    | (two) "\<not> is_space (enc [a])" "is_space (enc [a, b])"
    | (none) "\<not> is_space (enc [a])" "\<not> is_space (enc [a, b])"
    by blast
  then show ?case
  proof cases
    case one
    then show ?thesis using 2(1) [OF one 2(2,3)] by simp
  next
    case two
    then show ?thesis using l by auto
  next
    case none
    show ?thesis
    proof
      assume "drop_spaces enc [a, b] = u @ r"
      then have "u @ r = [a, b]" using none by simp
      from prefix_cases2 [OF this l] show False using none 2(3) by auto
    qed
  qed
next
  case (3 enc a)
  have l: "length u \<in> {1, 2, 3}"
    using is_space_length [OF 3(2)] 3(1) by simp
  show ?case
  proof (cases "is_space (enc [a])")
    case True
    then show ?thesis using l by auto
  next
    case False
    show ?thesis
    proof
      assume "drop_spaces enc [a] = u @ r"
      then have "u @ r = [a]" using False by simp
      from prefix_cases1 [OF this l] show False using False 3(2) by auto
    qed
  qed
next
  case (4 enc)
  have "length u \<in> {1, 2, 3}"
    using is_space_length [OF 4(2)] 4(1) by simp
  then show ?case by auto
qed

text \<open>\<open>strip\<close> takes whitespace code points off both ends, and leaves none at either
  end.\<close>

lemma strip_decomp:
  "\<exists>pre post. list_all is_space pre \<and> list_all is_space post \<and>
     v = concat pre @ strip v @ concat post"
proof -
  define x where "x = drop_spaces (\<lambda>w. w) v"
  obtain pre where pre: "list_all is_space pre" "v = concat pre @ x"
    using drop_spaces_decomp [of "\<lambda>w. w" v] unfolding x_def by blast
  obtain ws where ws: "list_all (\<lambda>u. is_space (rev u)) ws"
    "rev x = concat ws @ drop_spaces rev (rev x)"
    using drop_spaces_decomp [of rev "rev x"] by blast
  have s: "strip v = rev (drop_spaces rev (rev x))"
    by (simp add: strip_def x_def)
  have "x = rev (rev x)" by simp
  also have "\<dots> = rev (concat ws @ drop_spaces rev (rev x))" using ws(2) by simp
  also have "\<dots> = strip v @ rev (concat ws)" by (simp add: s)
  also have "rev (concat ws) = concat (map rev (rev ws))" by (simp add: rev_concat)
  finally have x: "x = strip v @ concat (map rev (rev ws))" .
  have "list_all is_space (map rev (rev ws))"
    using ws(1) by (simp add: list_all_iff)
  then show ?thesis using pre x by blast
qed

lemma strip_no_leading: "is_space w \<Longrightarrow> strip v \<noteq> w @ r"
proof
  assume w: "is_space w" and e: "strip v = w @ r"
  define x where "x = drop_spaces (\<lambda>w. w) v"
  obtain ws where ws: "rev x = concat ws @ drop_spaces rev (rev x)"
    using drop_spaces_decomp [of rev "rev x"] by blast
  have s: "strip v = rev (drop_spaces rev (rev x))"
    by (simp add: strip_def x_def)
  have "x = rev (rev x)" by simp
  also have "\<dots> = rev (concat ws @ drop_spaces rev (rev x))" using ws by simp
  also have "\<dots> = strip v @ rev (concat ws)" by (simp add: s)
  finally have "x = w @ (r @ rev (concat ws))" using e by simp
  moreover have "x \<noteq> w @ (r @ rev (concat ws))"
    unfolding x_def by (rule drop_spaces_no_leading) (use w in simp_all)
  ultimately show False by simp
qed

lemma strip_no_trailing: "is_space w \<Longrightarrow> strip v \<noteq> r @ w"
proof
  assume w: "is_space w" and e: "strip v = r @ w"
  define x where "x = drop_spaces (\<lambda>w. w) v"
  have "drop_spaces rev (rev x) = rev (strip v)"
    by (simp add: strip_def x_def)
  then have "drop_spaces rev (rev x) = rev w @ rev r" using e by simp
  moreover have "drop_spaces rev (rev x) \<noteq> rev w @ rev r"
    by (rule drop_spaces_no_leading) (use w in simp_all)
  ultimately show False by simp
qed

lemma ci_match_lower: "ci_match s t \<longleftrightarrow> lower s = lower t"
  unfolding ci_match_def lower_def
  by (induction s arbitrary: t) (auto simp: list_all2_Cons1)

lemma lower_consts:
  "lower ''true'' = ''true''" "lower ''1'' = ''1''" "lower ''yes'' = ''yes''" "lower ''y'' = ''y''"
  by (simp_all add: lower_def to_lower_def)

text \<open>
  Claim C9, as amended. \<open>parse_bool\<close> is a total function to \<open>bool\<close> (it has no failing
  branch), and it returns true exactly when its argument, with the whitespace at both
  ends removed, is a case-insensitive match for one of \<open>true\<close>, \<open>1\<close>, \<open>yes\<close>, \<open>y\<close>. The
  trimmed argument \<open>strip v\<close> is what is left of \<open>v\<close> when a sequence of whitespace code
  points is taken off each end, and it neither begins nor ends with a whitespace code
  point.
\<close>

theorem parse_bool_iff:
  "(parse_bool v \<longleftrightarrow> (\<exists>t \<in> {''true'', ''1'', ''yes'', ''y''}. ci_match (strip v) t)) \<and>
   (\<exists>pre post. list_all is_space pre \<and> list_all is_space post \<and>
      v = concat pre @ strip v @ concat post) \<and>
   \<not> (\<exists>w r. is_space w \<and> strip v = w @ r) \<and>
   \<not> (\<exists>w r. is_space w \<and> strip v = r @ w)"
proof -
  have "parse_bool v \<longleftrightarrow> (\<exists>t \<in> {''true'', ''1'', ''yes'', ''y''}. ci_match (strip v) t)"
    unfolding parse_bool_def ci_match_lower by (auto simp: lower_consts)
  then show ?thesis
    using strip_decomp [of v] strip_no_leading [of _ v] strip_no_trailing [of _ v] by blast
qed

lemmas strip_eval = strip_def is_space_def space1_def space2_def space3_def

lemma strip_padded:
  "strip ([CHR 0xC2, CHR 0xA0] @ '' Yes '' @ [CHR 0xE2, CHR 0x80, CHR 0x83]) = ''Yes''"
  by (simp add: strip_eval)

text \<open>The word \<open>Yes\<close> after a no-break space and a space, and before a space and an em
  space: the four code points are taken off, and the value is true. The word \<open>no\<close>
  gives false.\<close>

theorem parse_bool_iff_witness:
  "parse_bool ([CHR 0xC2, CHR 0xA0] @ '' Yes '' @ [CHR 0xE2, CHR 0x80, CHR 0x83]) \<and>
   strip ([CHR 0xC2, CHR 0xA0] @ '' Yes '' @ [CHR 0xE2, CHR 0x80, CHR 0x83]) = ''Yes'' \<and>
   ci_match ''Yes'' ''yes'' \<and>
   \<not> parse_bool ''no''"
proof -
  have m: "ci_match ''Yes'' ''yes''"
    by (simp add: ci_match_def to_lower_def)
  have 1: "parse_bool ([CHR 0xC2, CHR 0xA0] @ '' Yes '' @ [CHR 0xE2, CHR 0x80, CHR 0x83])"
    using parse_bool_iff [of "[CHR 0xC2, CHR 0xA0] @ '' Yes '' @ [CHR 0xE2, CHR 0x80, CHR 0x83]"] m
    by (simp only: strip_padded) simp
  have n: "strip ''no'' = ''no''"
    by (simp add: strip_eval)
  have "parse_bool ''no'' \<longleftrightarrow> (\<exists>t \<in> {''true'', ''1'', ''yes'', ''y''}. ci_match (strip ''no'') t)"
    using parse_bool_iff [of "''no''"] by blast
  then have 2: "\<not> parse_bool ''no''"
    by (simp add: n ci_match_def)
  show ?thesis using 1 2 m strip_padded by simp
qed

text \<open>The string \<open>Yes\<close> between two spaces is no case-insensitive match for any of the
  four words (it has five characters), and \<open>parse_bool\<close> returns true for it.\<close>

theorem parse_bool_counterexample:
  "parse_bool '' Yes '' \<and> \<not> (\<exists>t \<in> {''true'', ''1'', ''yes'', ''y''}. ci_match '' Yes '' t)"
proof -
  have "strip '' Yes '' = ''Yes''"
    by (simp add: strip_eval)
  then have "parse_bool '' Yes ''"
    by (simp add: parse_bool_def lower_def to_lower_def)
  moreover have "\<not> (\<exists>t \<in> {''true'', ''1'', ''yes'', ''y''}. ci_match '' Yes '' t)"
    by (simp add: ci_match_def)
  ultimately show ?thesis by simp
qed

subsection \<open>The use-case quote\<close>






text \<open>The loop of \<open>quote\<close> appends the lines of the included entries to \<open>breakdown\<close> and
  adds their costs to \<open>grand_total_usd\<close>, in the order of the table; it fails with the
  first SKU quote that fails. Among linearly ordered numbers the test
  \<open>units_total \<le> 0\<close> of the loop fails exactly for a strictly positive \<open>units_total\<close>.\<close>

lemma quote_loop_eq:
  fixes st :: "('n::{linorder,zero,one,plus,minus,times,inverse}) DataStore"
  shows "quote_loop st uc hrs names ms bd gt =
     (case traverse (entry_line st uc hrs names) (filter (is_included st uc hrs) ms) of
        Inl e \<Rightarrow> Inl e
      | Inr ls \<Rightarrow> Inr (bd @ ls, foldl (+) gt (map cost_usd ls)))"
proof (induction ms arbitrary: bd gt)
  case Nil
  then show ?case by simp
next
  case (Cons m ms)
  obtain code per where m: "m = (code, per)" by (cases m)
  have g: "get_default per uc 0 = rate per uc" by (simp add: get_default_def)
  show ?case
  proof (cases "is_included st uc hrs m")
    case False
    then have "rate per uc * hrs \<le> 0 \<or> map_of (skus st) code = None"
      by (auto simp: is_included_def m map_of_eq_None_iff)
    then show ?thesis using False Cons.IH by (auto simp: m g Let_def)
  next
    case True
    then have c: "\<not> rate per uc * hrs \<le> 0" "map_of (skus st) code \<noteq> None"
      by (auto simp: is_included_def m map_of_eq_None_iff)
    show ?thesis
    proof (cases "calculate_sku_quote st code (rate per uc * hrs) names")
      case (Inl e)
      then show ?thesis using True c by (auto simp: m g Let_def entry_line_def)
    next
      case (Inr q)
      then show ?thesis using True c Cons.IH
        by (auto simp: m g Let_def entry_line_def split: sum.splits)
    qed
  qed
qed

lemma quote_use_case_eq:
  fixes st :: "('n::{linorder,zero,one,plus,minus,times,inverse}) DataStore"
  assumes "mode p = ''use_case''" "use_case p = Some uc" "uc \<noteq> []"
    "uc \<in> set (use_cases st)" "hours p = Some hrs" "0 < hrs"
  shows "quote st p =
           (case included_lines st uc hrs (uplift_names p) of
              Inl e \<Rightarrow> Inl e
            | Inr ls \<Rightarrow>
                Inr (Use_case_response
                  \<lparr>mode_r = ''use_case'', use_case_r = uc, hours_r = hrs,
                   grand_total_usd = foldl (+) 0 (map cost_usd ls),
                   breakdown = sort_reverse cost_usd ls\<rparr>))"
proof -
  have "\<not> hrs \<le> 0" using assms(6) by simp
  then show ?thesis
    using assms(1-5)
    by (simp add: quote_def quote_loop_eq included_lines_def included_def split: sum.splits)
qed

lemma traverse_Inr_iff:
  "(\<exists>ys. traverse f xs = Inr ys) \<longleftrightarrow> (\<forall>x\<in>set xs. \<exists>y. f x = Inr y)"
  by (induction xs) (auto split: sum.splits)








text \<open>
  Claim C10. The uplift names are looked at only by the SKU quote of an included
  entry. When every entry of the mapping table is skipped (\<open>units_total \<le> 0\<close>, or a SKU
  code that is not in the SKU set), a valid use-case request succeeds with an empty
  breakdown and a grand total of \<open>0\<close>, whatever its uplift names.
\<close>

theorem use_case_quote_all_skipped:
  fixes st :: "('n::{linorder,zero,one,plus,minus,times,inverse}) DataStore"
  assumes "mode p = ''use_case''" "use_case p = Some uc" "uc \<noteq> []"
    "uc \<in> set (use_cases st)" "hours p = Some hrs" "0 < hrs"
    and "\<forall>e \<in> set (use_case_mappings st).
           get_default (snd e) uc 0 * hrs \<le> 0 \<or> fst e \<notin> fst ` set (skus st)"
  shows "quote st p =
           Inr (Use_case_response
             \<lparr>mode_r = ''use_case'', use_case_r = uc, hours_r = hrs,
              grand_total_usd = 0, breakdown = []\<rparr>)"
proof -
  have "filter (is_included st uc hrs) (use_case_mappings st) = []"
    using assms(7) by (auto simp: filter_empty_conv is_included_def get_default_def)
  then have "included_lines st uc hrs (uplift_names p) = Inr []"
    by (simp add: included_lines_def included_def)
  then show ?thesis
    using quote_use_case_eq [OF assms(1-6)] by (simp add: sort_reverse_def sort_lt_def)
qed

text \<open>The name \<open>Nope\<close> is no uplift of the store; the request that carries it succeeds
  on the store whose entries are all skipped, and fails on the test's store.\<close>

theorem use_case_quote_all_skipped_witness:
  "resolve_uplifts stale_store (Some [''Nope'']) =
     Inl (HTTPException 400 (Unknown_uplifts [''Nope''])) \<and>
   quote stale_store (use_case_request 10 (Some [''Nope''])) =
     Inr (Use_case_response
       \<lparr>mode_r = ''use_case'', use_case_r = ''Early-Stage AI Startup'', hours_r = 10,
        grand_total_usd = 0, breakdown = []\<rparr>) \<and>
   quote test_store (use_case_request 10 (Some [''Nope''])) =
     Inl (HTTPException 400 (Unknown_uplifts [''Nope'']))"
proof -
  let ?p = "use_case_request 10 (Some [''Nope''])"
  have h: "mode ?p = ''use_case''" "use_case ?p = Some ''Early-Stage AI Startup''"
    "''Early-Stage AI Startup'' \<noteq> []"
    "''Early-Stage AI Startup'' \<in> set (use_cases stale_store)"
    "hours ?p = Some 10" "(0::real) < 10"
    by (simp_all add: use_case_request_def stale_store_def test_store_def)
  have s: "\<forall>e \<in> set (use_case_mappings stale_store).
           get_default (snd e) ''Early-Stage AI Startup'' 0 * 10 \<le> 0 \<or> fst e \<notin> fst ` set (skus stale_store)"
    by (simp add: stale_store_def test_store_def get_default_def)
  have 1: "resolve_uplifts stale_store (Some [''Nope'']) =
     Inl (HTTPException 400 (Unknown_uplifts [''Nope'']))"
    by (simp add: resolve_uplifts_def stale_store_def test_store_def)
  have 3: "quote test_store ?p = Inl (HTTPException 400 (Unknown_uplifts [''Nope'']))"
    by (simp add: quote_def use_case_request_def test_store_def get_default_def
          calculate_sku_quote_def resolve_uplifts_def)
  show ?thesis
    using use_case_quote_all_skipped [OF h s] 1 3 by simp
qed

subsection \<open>The use-case mapping table\<close>

lemma traverse_Inr_map:
  "traverse f xs = Inr ys \<Longrightarrow> list_all2 (\<lambda>x y. f x = Inr y) xs ys"
  by (induction xs arbitrary: ys) (auto split: sum.splits)

text \<open>A dictionary built by assignments: its keys are the old and the assigned ones, and
  the last assignment to a key is its value.\<close>

lemma foldl_update_keys:
  "fst ` set (foldl (\<lambda>d kv. AList.update (fst kv) (snd kv) d) d0 kvs) = fst ` set d0 \<union> fst ` set kvs"
  by (induction kvs arbitrary: d0) (auto simp: dom_update image_iff)

lemma foldl_update_map_of:
  "map_of (foldl (\<lambda>d kv. AList.update (fst kv) (snd kv) d) d0 kvs) k =
     (case map_of (rev kvs) k of None \<Rightarrow> map_of d0 k | Some v \<Rightarrow> Some v)"
  by (induction kvs arbitrary: d0) (auto simp: update_conv' map_add_def split: option.splits)


lemma traverse_pair_keys:
  "traverse (\<lambda>x. and_then (g x) (\<lambda>v. Inr (x, v))) xs = Inr kvs \<Longrightarrow>
   map fst kvs = xs \<and> (\<forall>kv\<in>set kvs. g (fst kv) = Inr (snd kv))"
  by (induction xs arbitrary: kvs) (auto simp: and_then_def split: sum.splits)

lemma map_of_rev_functional:
  assumes "\<forall>kv\<in>set kvs. g (fst kv) = Inr (snd kv)" and "k \<in> fst ` set kvs" and "g k = Inr v"
  shows "map_of (rev kvs) k = Some v"
proof -
  from assms(2) obtain w where "map_of (rev kvs) k = Some w"
    by (metis domD dom_map_of_conv_image_fst set_rev)
  moreover from this have "(k, w) \<in> set kvs" by (metis map_of_SomeD set_rev)
  ultimately show ?thesis using assms(1,3) by fastforce
qed

text \<open>The dictionary of one row has an entry for every use-case name, the coercion of
  the row's cell; it exists when every cell coerces.\<close>

lemma use_case_row_Inr:
  assumes "use_case_row float_of ucs r = Inr d"
  shows "fst ` set d = set ucs \<and>
         (\<forall>uc\<in>set ucs. \<exists>v. parse_float float_of (get_default r uc []) = Inr v \<and> map_of d uc = Some v)"
proof -
  from assms obtain kvs where
    t: "traverse (\<lambda>uc. and_then (parse_float float_of (get_default r uc [])) (\<lambda>v. Inr (uc, v))) ucs = Inr kvs"
    and d: "d = dict_of kvs"
    by (auto simp: use_case_row_def and_then_def split: sum.splits)
  from traverse_pair_keys [OF t]
  have k: "map fst kvs = ucs"
    and f: "\<forall>kv\<in>set kvs. parse_float float_of (get_default r (fst kv) []) = Inr (snd kv)"
    by blast+
  have keys: "fst ` set kvs = set ucs" using k by (metis set_map)
  have 1: "fst ` set d = set ucs"
    unfolding d dict_of_def by (simp add: foldl_update_keys keys)
  have 2: "\<exists>v. parse_float float_of (get_default r uc []) = Inr v \<and> map_of d uc = Some v"
    if "uc \<in> set ucs" for uc
  proof -
    from that keys have "uc \<in> fst ` set kvs" by simp
    then obtain kv where kv: "kv \<in> set kvs" "fst kv = uc" by (metis imageE)
    then have p: "parse_float float_of (get_default r uc []) = Inr (snd kv)" using f by auto
    have "map_of (rev kvs) uc = Some (snd kv)"
      by (rule map_of_rev_functional [where g = "\<lambda>uc. parse_float float_of (get_default r uc [])"])
         (use f that keys p in auto)
    then have "map_of d uc = Some (snd kv)"
      unfolding d dict_of_def by (simp add: foldl_update_map_of)
    then show ?thesis using p by blast
  qed
  show ?thesis using 1 2 by blast
qed

lemma and_then_Inr_iff:
  "(\<exists>y. and_then m (\<lambda>v. Inr (f v)) = Inr y) \<longleftrightarrow> (\<exists>v. m = Inr v)"
  by (cases m) (simp_all add: and_then_def)

lemma use_case_row_Inr_iff:
  "(\<exists>d. use_case_row float_of ucs r = Inr d) \<longleftrightarrow>
   (\<forall>uc\<in>set ucs. \<exists>v. parse_float float_of (get_default r uc []) = Inr v)"
proof -
  have "(\<exists>d. use_case_row float_of ucs r = Inr d) \<longleftrightarrow>
        (\<exists>kvs. traverse (\<lambda>uc. and_then (parse_float float_of (get_default r uc [])) (\<lambda>v. Inr (uc, v))) ucs = Inr kvs)"
    by (auto simp: use_case_row_def and_then_def split: sum.splits)
  also have "\<dots> \<longleftrightarrow> (\<forall>uc\<in>set ucs. \<exists>y. and_then (parse_float float_of (get_default r uc [])) (\<lambda>v. Inr (uc, v)) = Inr y)"
    by (rule traverse_Inr_iff)
  also have "\<dots> \<longleftrightarrow> (\<forall>uc\<in>set ucs. \<exists>v. parse_float float_of (get_default r uc []) = Inr v)"
    by (simp only: and_then_Inr_iff)
  finally show ?thesis .
qed

text \<open>The loop over the rows: it returns when every retained row has its dictionary;
  the keys it adds are the SKU codes of the retained rows; the value of a code is the
  dictionary of the last row that carries it.\<close>

lemma rows_loop_Inr_iff:
  "(\<exists>res. use_case_rows_loop float_of ucs rows parsed = Inr res) \<longleftrightarrow>
   (\<forall>r\<in>set rows. sku_code_of r \<noteq> [] \<longrightarrow> (\<exists>d. use_case_row float_of ucs r = Inr d))"
proof (induction rows arbitrary: parsed)
  case Nil
  then show ?case by simp
next
  case (Cons r rs)
  show ?case
  proof (cases "sku_code_of r = []")
    case True
    then show ?thesis using Cons.IH [of parsed] by (simp add: sku_code_of_def Let_def)
  next
    case False
    show ?thesis
    proof (cases "use_case_row float_of ucs r")
      case (Inl e)
      then show ?thesis using False by (auto simp: sku_code_of_def Let_def and_then_def)
    next
      case (Inr d)
      then show ?thesis using False Cons.IH [of "AList.update (sku_code_of r) d parsed"]
        by (simp add: sku_code_of_def Let_def and_then_def)
    qed
  qed
qed

lemma rows_loop_Inr:
  assumes "use_case_rows_loop float_of ucs rows parsed = Inr res"
  shows "fst ` set res = fst ` set parsed \<union> {sku_code_of r |r. r \<in> set rows \<and> sku_code_of r \<noteq> []}"
    and "\<And>k. k \<notin> sku_code_of ` set rows \<Longrightarrow> map_of res k = map_of parsed k"
    and "\<And>pre r post. rows = pre @ r # post \<Longrightarrow> sku_code_of r \<noteq> [] \<Longrightarrow>
           sku_code_of r \<notin> sku_code_of ` set post \<Longrightarrow>
           \<exists>d. map_of res (sku_code_of r) = Some d \<and> use_case_row float_of ucs r = Inr d"
    and "distinct (map fst parsed) \<Longrightarrow> distinct (map fst res)"
  using assms
proof (induction rows arbitrary: parsed)
  case Nil
  { case 1 then show ?case by simp }
  { case 2 then show ?case by simp }
  { case 3 then show ?case by simp }
  { case 4 then show ?case by simp }
next
  case (Cons r0 rs)
  { case 1
    show ?case
    proof (cases "sku_code_of r0 = []")
      case True
      then have "use_case_rows_loop float_of ucs rs parsed = Inr res"
        using 1 by (simp add: sku_code_of_def Let_def)
      from Cons.IH(1) [OF this] show ?thesis using True by auto
    next
      case False
      then obtain d where d: "use_case_row float_of ucs r0 = Inr d"
        and l: "use_case_rows_loop float_of ucs rs (AList.update (sku_code_of r0) d parsed) = Inr res"
        using 1 by (auto simp: sku_code_of_def Let_def and_then_def split: sum.splits)
      from Cons.IH(1) [OF l] show ?thesis using False by (auto simp: dom_update)
    qed }
  { case (2 k)
    show ?case
    proof (cases "sku_code_of r0 = []")
      case True
      then have "use_case_rows_loop float_of ucs rs parsed = Inr res"
        using 2 by (simp add: sku_code_of_def Let_def)
      from Cons.IH(2) [OF _ this, of k] show ?thesis using 2 by auto
    next
      case False
      then obtain d where d: "use_case_row float_of ucs r0 = Inr d"
        and l: "use_case_rows_loop float_of ucs rs (AList.update (sku_code_of r0) d parsed) = Inr res"
        using 2 by (auto simp: sku_code_of_def Let_def and_then_def split: sum.splits)
      from Cons.IH(2) [OF _ l, of k] show ?thesis using 2 by (auto simp: update_conv')
    qed }
  { case (3 pre r post)
    show ?case
    proof (cases "sku_code_of r0 = []")
      case True
      then have l: "use_case_rows_loop float_of ucs rs parsed = Inr res"
        using 3(4) by (simp add: sku_code_of_def Let_def)
      from 3 True obtain pre' where "pre = r0 # pre'" "rs = pre' @ r # post"
        by (cases pre) auto
      with Cons.IH(3) [OF _ _ _ l] 3 show ?thesis by blast
    next
      case False
      then obtain d where d: "use_case_row float_of ucs r0 = Inr d"
        and l: "use_case_rows_loop float_of ucs rs (AList.update (sku_code_of r0) d parsed) = Inr res"
        using 3(4) by (auto simp: sku_code_of_def Let_def and_then_def split: sum.splits)
      show ?thesis
      proof (cases pre)
        case Nil
        then have e: "r = r0" "post = rs" using 3 by auto
        have "map_of res (sku_code_of r0) = map_of (AList.update (sku_code_of r0) d parsed) (sku_code_of r0)"
          using Cons.IH(2) [OF _ l, of "sku_code_of r0"] 3 e by auto
        then show ?thesis using d e by (simp add: update_conv')
      next
        case (Cons a pre')
        then have "rs = pre' @ r # post" using 3 by auto
        with Cons.IH(3) [OF _ _ _ l] 3 show ?thesis by blast
      qed
    qed }
  { case 4
    show ?case
    proof (cases "sku_code_of r0 = []")
      case True
      then have "use_case_rows_loop float_of ucs rs parsed = Inr res"
        using 4 by (simp add: sku_code_of_def Let_def)
      from Cons.IH(4) [OF _ this] show ?thesis using 4 by auto
    next
      case False
      then obtain d where d: "use_case_row float_of ucs r0 = Inr d"
        and l: "use_case_rows_loop float_of ucs rs (AList.update (sku_code_of r0) d parsed) = Inr res"
        using 4 by (auto simp: sku_code_of_def Let_def and_then_def split: sum.splits)
      from Cons.IH(4) [OF _ l] show ?thesis using 4 by (auto simp: distinct_update)
    qed }
qed


text \<open>When the loops raise: the element at which a traversal stops is the first one
  whose computation raises, and the exception is that computation's.\<close>

lemma traverse_Inl:
  "traverse f xs = Inl e \<Longrightarrow>
   \<exists>pre x post. xs = pre @ x # post \<and> (\<forall>y\<in>set pre. \<exists>v. f y = Inr v) \<and> f x = Inl e"
proof (induction xs)
  case Nil
  then show ?case by simp
next
  case (Cons a xs)
  show ?case
  proof (cases "f a")
    case (Inl e')
    then have "f a = Inl e" using Cons.prems by simp
    then have "a # xs = [] @ a # xs \<and> (\<forall>y\<in>set []. \<exists>v. f y = Inr v) \<and> f a = Inl e" by simp
    then show ?thesis by blast
  next
    case (Inr v)
    then have "traverse f xs = Inl e" using Cons.prems by (simp split: sum.splits)
    from Cons.IH [OF this] obtain pre x post where
      p: "xs = pre @ x # post" "\<forall>y\<in>set pre. \<exists>v. f y = Inr v" "f x = Inl e" by blast
    have "a # xs = (a # pre) @ x # post \<and> (\<forall>y\<in>set (a # pre). \<exists>v. f y = Inr v) \<and> f x = Inl e"
      using p Inr by simp
    then show ?thesis by blast
  qed
qed

lemma use_case_row_Inl:
  assumes "use_case_row float_of ucs r = Inl e"
  shows "\<exists>u1 uc u2. ucs = u1 @ uc # u2 \<and>
           (\<forall>u\<in>set u1. \<exists>v. parse_float float_of (get_default r u []) = Inr v) \<and>
           parse_float float_of (get_default r uc []) = Inl e"
proof -
  let ?f = "\<lambda>uc. and_then (parse_float float_of (get_default r uc [])) (\<lambda>v. Inr (uc, v))"
  from assms have "traverse ?f ucs = Inl e"
    by (auto simp: use_case_row_def and_then_def split: sum.splits)
  from traverse_Inl [OF this] obtain u1 uc u2 where
    p: "ucs = u1 @ uc # u2" "\<forall>y\<in>set u1. \<exists>v. ?f y = Inr v" "?f uc = Inl e" by blast
  have 1: "\<forall>u\<in>set u1. \<exists>v. parse_float float_of (get_default r u []) = Inr v"
    using p(2) by (simp only: and_then_Inr_iff)
  have 2: "parse_float float_of (get_default r uc []) = Inl e"
    using p(3) by (auto simp: and_then_def split: sum.splits)
  from p(1) 1 2 show ?thesis by blast
qed

lemma rows_loop_Inl:
  "use_case_rows_loop float_of ucs rows parsed = Inl e \<Longrightarrow>
   \<exists>pre r post. rows = pre @ r # post \<and>
     (\<forall>r'\<in>set pre. sku_code_of r' \<noteq> [] \<longrightarrow> (\<exists>d. use_case_row float_of ucs r' = Inr d)) \<and>
     sku_code_of r \<noteq> [] \<and> use_case_row float_of ucs r = Inl e"
proof (induction rows arbitrary: parsed)
  case Nil
  then show ?case by simp
next
  case (Cons r0 rs)
  let ?P = "\<lambda>pre r. (\<forall>r'\<in>set pre. sku_code_of r' \<noteq> [] \<longrightarrow> (\<exists>d. use_case_row float_of ucs r' = Inr d)) \<and>
     sku_code_of r \<noteq> [] \<and> use_case_row float_of ucs r = Inl e"
  show ?case
  proof (cases "sku_code_of r0 = []")
    case True
    then have "use_case_rows_loop float_of ucs rs parsed = Inl e"
      using Cons.prems by (simp add: sku_code_of_def Let_def)
    from Cons.IH [OF this] obtain pre r post where p: "rs = pre @ r # post" "?P pre r" by blast
    have "r0 # rs = (r0 # pre) @ r # post \<and> ?P (r0 # pre) r" using p True by simp
    then show ?thesis by blast
  next
    case False
    show ?thesis
    proof (cases "use_case_row float_of ucs r0")
      case (Inl e')
      then have "e' = e" using Cons.prems False by (simp add: sku_code_of_def Let_def and_then_def)
      then have "r0 # rs = [] @ r0 # rs \<and> ?P [] r0" using Inl False by simp
      then show ?thesis by blast
    next
      case (Inr d)
      then have "use_case_rows_loop float_of ucs rs (AList.update (sku_code_of r0) d parsed) = Inl e"
        using Cons.prems False by (simp add: sku_code_of_def Let_def and_then_def)
      from Cons.IH [OF this] obtain pre r post where p: "rs = pre @ r # post" "?P pre r" by blast
      have "r0 # rs = (r0 # pre) @ r # post \<and> ?P (r0 # pre) r" using p Inr by auto
      then show ?thesis by blast
    qed
  qed
qed

text \<open>The coercion of a cell: the cell is trimmed and the characters \<^verbatim>\<open>,\<close>, \<^verbatim>\<open>$\<close> and
  \<^verbatim>\<open>%\<close> are removed; an empty rest is \<open>0\<close>, any other rest is what \<^verbatim>\<open>float\<close> makes of
  it, which is the \<^verbatim>\<open>ValueError\<close> when \<^verbatim>\<open>float\<close> raises.\<close>

lemma remove_chars:
  "remove_char CHR ''%'' (remove_char CHR ''$'' (remove_char CHR '','' s)) =
     filter (\<lambda>x. x \<notin> {CHR '','', CHR ''$'', CHR ''%''}) s"
  by (induction s) (simp_all add: remove_char_def)

lemma parse_float_Inl:
  assumes "parse_float float_of v = Inl e"
  shows "filter (\<lambda>x. x \<notin> {CHR '','', CHR ''$'', CHR ''%''}) (strip v) \<noteq> [] \<and>
         float_of (filter (\<lambda>x. x \<notin> {CHR '','', CHR ''$'', CHR ''%''}) (strip v)) = None \<and>
         e = ValueError (filter (\<lambda>x. x \<notin> {CHR '','', CHR ''$'', CHR ''%''}) (strip v))"
  using assms unfolding parse_float_def remove_chars Let_def
  by (auto split: if_splits option.splits)

lemma parse_float_Inr:
  "parse_float float_of v = Inr x \<longleftrightarrow>
     (let c = filter (\<lambda>x. x \<notin> {CHR '','', CHR ''$'', CHR ''%''}) (strip v)
      in if c = [] then x = 0 else float_of c = Some x)"
  unfolding parse_float_def remove_chars Let_def
  by (auto split: if_splits option.splits)

lemma parse_float_blank:
  "map_of r uc = None \<or> map_of r uc = Some [] \<Longrightarrow> parse_float float_of (get_default r uc []) = Inr 0"
  by (auto simp: get_default_def parse_float_def strip_def remove_char_def)

text \<open>
  Claim C8, as amended. For zero rows the parse returns an empty mapping and an empty
  list of use cases. It returns exactly when every use-case cell of every retained
  row coerces to a number; otherwise it raises the \<^verbatim>\<open>ValueError\<close> of the first cell, in
  row and then column order, of a retained row that does not coerce, which carries the
  cleaned text of that cell. When it returns, the use-case names are the headers of
  the first row other than \<open>SKU Code\<close>, in column order; the keys of the mapping are the
  trimmed SKU codes of the rows whose trimmed SKU code is not empty, each once; and
  for every retained row that no later row repeats the SKU code of, the mapping sends
  the code to a dictionary with an entry for every use-case name, the coercion of that
  row's cell. The trimmed SKU code is the cell without the white-space code points at
  its two ends (an absent cell counts as empty). The coercion of a cell trims it and
  removes the characters \<^verbatim>\<open>,\<close>, \<^verbatim>\<open>$\<close> and \<^verbatim>\<open>%\<close>; it is \<open>0\<close> when nothing is left (so for an
  absent or empty cell), and otherwise what \<^verbatim>\<open>float\<close> makes of the rest.
\<close>

theorem parse_use_case_mappings_rows:
  "parse_use_case_mappings float_of [] = Inr ([], []) \<and>
   ((\<exists>res. parse_use_case_mappings float_of rows = Inr res) \<longleftrightarrow>
      (\<forall>r\<in>set rows. sku_code_of r \<noteq> [] \<longrightarrow>
         (\<forall>uc\<in>set (header_use_cases rows).
            \<exists>v. parse_float float_of (get_default r uc []) = Inr v))) \<and>
   (\<forall>parsed ucs. parse_use_case_mappings float_of rows = Inr (parsed, ucs) \<longrightarrow>
      ucs = header_use_cases rows \<and>
      distinct (map fst parsed) \<and>
      fst ` set parsed = {sku_code_of r |r. r \<in> set rows \<and> sku_code_of r \<noteq> []} \<and>
      (\<forall>pre r post. rows = pre @ r # post \<and> sku_code_of r \<noteq> [] \<and>
           sku_code_of r \<notin> sku_code_of ` set post \<longrightarrow>
         (\<exists>d. map_of parsed (sku_code_of r) = Some d \<and> fst ` set d = set ucs \<and>
              (\<forall>uc\<in>set ucs. \<exists>v. parse_float float_of (get_default r uc []) = Inr v \<and>
                                map_of d uc = Some v)))) \<and>
   (\<forall>r uc. map_of r uc = None \<or> map_of r uc = Some [] \<longrightarrow>
      parse_float float_of (get_default r uc []) = Inr 0) \<and>
   (\<forall>e. parse_use_case_mappings float_of rows = Inl e \<longrightarrow>
      (\<exists>pre r post u1 uc u2 c.
         rows = pre @ r # post \<and> header_use_cases rows = u1 @ uc # u2 \<and>
         (\<forall>r'\<in>set pre. sku_code_of r' \<noteq> [] \<longrightarrow>
            (\<forall>u\<in>set (header_use_cases rows).
               \<exists>v. parse_float float_of (get_default r' u []) = Inr v)) \<and>
         sku_code_of r \<noteq> [] \<and>
         (\<forall>u\<in>set u1. \<exists>v. parse_float float_of (get_default r u []) = Inr v) \<and>
         c = filter (\<lambda>x. x \<notin> {CHR '','', CHR ''$'', CHR ''%''}) (strip (get_default r uc [])) \<and>
         c \<noteq> [] \<and> float_of c = None \<and> e = ValueError c)) \<and>
   (\<forall>cell x. parse_float float_of cell = Inr x \<longleftrightarrow>
      (let c = filter (\<lambda>x. x \<notin> {CHR '','', CHR ''$'', CHR ''%''}) (strip cell)
       in if c = [] then x = 0 else float_of c = Some x)) \<and>
   (\<forall>r. \<exists>pre post. list_all is_space pre \<and> list_all is_space post \<and>
      (case map_of r ''SKU Code'' of None \<Rightarrow> [] | Some cell \<Rightarrow> cell) =
        concat pre @ sku_code_of r @ concat post \<and>
      \<not> (\<exists>w t. is_space w \<and> sku_code_of r = w @ t) \<and>
      \<not> (\<exists>w t. is_space w \<and> sku_code_of r = t @ w))"
proof -
  have a: "parse_use_case_mappings float_of [] = Inr ([], [])"
    by (simp add: parse_use_case_mappings_def)
  have eq: "parse_use_case_mappings float_of rows =
      and_then (use_case_rows_loop float_of (header_use_cases rows) rows [])
        (\<lambda>parsed. Inr (parsed, header_use_cases rows))"
    by (cases rows)
       (simp_all add: parse_use_case_mappings_def header_use_cases_def Let_def and_then_def)
  have b: "(\<exists>res. parse_use_case_mappings float_of rows = Inr res) \<longleftrightarrow>
      (\<forall>r\<in>set rows. sku_code_of r \<noteq> [] \<longrightarrow>
         (\<forall>uc\<in>set (header_use_cases rows).
            \<exists>v. parse_float float_of (get_default r uc []) = Inr v))"
  proof -
    have "(\<exists>res. parse_use_case_mappings float_of rows = Inr res) \<longleftrightarrow>
        (\<exists>res. use_case_rows_loop float_of (header_use_cases rows) rows [] = Inr res)"
      unfolding eq by (cases "use_case_rows_loop float_of (header_use_cases rows) rows []")
        (simp_all add: and_then_def)
    then show ?thesis by (simp only: rows_loop_Inr_iff use_case_row_Inr_iff)
  qed
  have c: "ucs = header_use_cases rows \<and>
      distinct (map fst parsed) \<and>
      fst ` set parsed = {sku_code_of r |r. r \<in> set rows \<and> sku_code_of r \<noteq> []} \<and>
      (\<forall>pre r post. rows = pre @ r # post \<and> sku_code_of r \<noteq> [] \<and>
           sku_code_of r \<notin> sku_code_of ` set post \<longrightarrow>
         (\<exists>d. map_of parsed (sku_code_of r) = Some d \<and> fst ` set d = set ucs \<and>
              (\<forall>uc\<in>set ucs. \<exists>v. parse_float float_of (get_default r uc []) = Inr v \<and>
                                map_of d uc = Some v)))"
    if p: "parse_use_case_mappings float_of rows = Inr (parsed, ucs)" for parsed ucs
  proof -
    from p have u: "ucs = header_use_cases rows"
      and l: "use_case_rows_loop float_of ucs rows [] = Inr parsed"
      unfolding eq by (auto simp: and_then_def split: sum.splits)
    have 1: "distinct (map fst parsed)"
      using rows_loop_Inr(4) [OF l] by simp
    have 2: "fst ` set parsed = {sku_code_of r |r. r \<in> set rows \<and> sku_code_of r \<noteq> []}"
      using rows_loop_Inr(1) [OF l] by simp
    have 3: "\<exists>d. map_of parsed (sku_code_of r) = Some d \<and> fst ` set d = set ucs \<and>
              (\<forall>uc\<in>set ucs. \<exists>v. parse_float float_of (get_default r uc []) = Inr v \<and>
                                map_of d uc = Some v)"
      if "rows = pre @ r # post" "sku_code_of r \<noteq> []" "sku_code_of r \<notin> sku_code_of ` set post"
      for pre r post
    proof -
      from rows_loop_Inr(3) [OF l that] obtain d where
        d: "map_of parsed (sku_code_of r) = Some d" "use_case_row float_of ucs r = Inr d"
        by blast
      from use_case_row_Inr [OF d(2)] d(1) show ?thesis by blast
    qed
    show ?thesis using u 1 2 3 by blast
  qed
  have d: "\<forall>r uc. map_of r uc = None \<or> map_of r uc = Some [] \<longrightarrow>
      parse_float float_of (get_default r uc []) = Inr 0"
    by (intro allI impI) (rule parse_float_blank)
  have c': "\<forall>parsed ucs. parse_use_case_mappings float_of rows = Inr (parsed, ucs) \<longrightarrow>
      ucs = header_use_cases rows \<and>
      distinct (map fst parsed) \<and>
      fst ` set parsed = {sku_code_of r |r. r \<in> set rows \<and> sku_code_of r \<noteq> []} \<and>
      (\<forall>pre r post. rows = pre @ r # post \<and> sku_code_of r \<noteq> [] \<and>
           sku_code_of r \<notin> sku_code_of ` set post \<longrightarrow>
         (\<exists>d. map_of parsed (sku_code_of r) = Some d \<and> fst ` set d = set ucs \<and>
              (\<forall>uc\<in>set ucs. \<exists>v. parse_float float_of (get_default r uc []) = Inr v \<and>
                                map_of d uc = Some v)))"
    by (intro allI impI) (rule c)
  have e: "\<exists>pre r post u1 uc u2 c.
         rows = pre @ r # post \<and> header_use_cases rows = u1 @ uc # u2 \<and>
         (\<forall>r'\<in>set pre. sku_code_of r' \<noteq> [] \<longrightarrow>
            (\<forall>u\<in>set (header_use_cases rows).
               \<exists>v. parse_float float_of (get_default r' u []) = Inr v)) \<and>
         sku_code_of r \<noteq> [] \<and>
         (\<forall>u\<in>set u1. \<exists>v. parse_float float_of (get_default r u []) = Inr v) \<and>
         c = filter (\<lambda>x. x \<notin> {CHR '','', CHR ''$'', CHR ''%''}) (strip (get_default r uc [])) \<and>
         c \<noteq> [] \<and> float_of c = None \<and> e = ValueError c"
    if p: "parse_use_case_mappings float_of rows = Inl e" for e
  proof -
    let ?ucs = "header_use_cases rows"
    from p have "use_case_rows_loop float_of ?ucs rows [] = Inl e"
      unfolding eq by (auto simp: and_then_def split: sum.splits)
    from rows_loop_Inl [OF this] obtain pre r post where
      r: "rows = pre @ r # post"
         "\<forall>r'\<in>set pre. sku_code_of r' \<noteq> [] \<longrightarrow> (\<exists>d. use_case_row float_of ?ucs r' = Inr d)"
         "sku_code_of r \<noteq> []" "use_case_row float_of ?ucs r = Inl e"
      by blast
    from use_case_row_Inl [OF r(4)] obtain u1 uc u2 where
      u: "?ucs = u1 @ uc # u2"
         "\<forall>u\<in>set u1. \<exists>v. parse_float float_of (get_default r u []) = Inr v"
         "parse_float float_of (get_default r uc []) = Inl e"
      by blast
    have 1: "\<forall>r'\<in>set pre. sku_code_of r' \<noteq> [] \<longrightarrow>
            (\<forall>u\<in>set ?ucs. \<exists>v. parse_float float_of (get_default r' u []) = Inr v)"
      using r(2) by (simp only: use_case_row_Inr_iff)
    define c where "c = filter (\<lambda>x. x \<notin> {CHR '','', CHR ''$'', CHR ''%''}) (strip (get_default r uc []))"
    from parse_float_Inl [OF u(3)] have 2: "c \<noteq> []" "float_of c = None" "e = ValueError c"
      unfolding c_def by blast+
    show ?thesis
      by (rule exI [of _ pre], rule exI [of _ r], rule exI [of _ post], rule exI [of _ u1],
          rule exI [of _ uc], rule exI [of _ u2], rule exI [of _ c],
          intro conjI r(1) u(1) 1 r(3) u(2) c_def 2)
  qed
  have e': "\<forall>e. parse_use_case_mappings float_of rows = Inl e \<longrightarrow>
      (\<exists>pre r post u1 uc u2 c.
         rows = pre @ r # post \<and> header_use_cases rows = u1 @ uc # u2 \<and>
         (\<forall>r'\<in>set pre. sku_code_of r' \<noteq> [] \<longrightarrow>
            (\<forall>u\<in>set (header_use_cases rows).
               \<exists>v. parse_float float_of (get_default r' u []) = Inr v)) \<and>
         sku_code_of r \<noteq> [] \<and>
         (\<forall>u\<in>set u1. \<exists>v. parse_float float_of (get_default r u []) = Inr v) \<and>
         c = filter (\<lambda>x. x \<notin> {CHR '','', CHR ''$'', CHR ''%''}) (strip (get_default r uc [])) \<and>
         c \<noteq> [] \<and> float_of c = None \<and> e = ValueError c)"
    by (intro allI impI) (rule e)
  have f: "\<forall>cell x. parse_float float_of cell = Inr x \<longleftrightarrow>
      (let c = filter (\<lambda>x. x \<notin> {CHR '','', CHR ''$'', CHR ''%''}) (strip cell)
       in if c = [] then x = 0 else float_of c = Some x)"
    by (intro allI) (rule parse_float_Inr)
  have g: "\<exists>pre post. list_all is_space pre \<and> list_all is_space post \<and>
      (case map_of r ''SKU Code'' of None \<Rightarrow> [] | Some cell \<Rightarrow> cell) =
        concat pre @ sku_code_of r @ concat post \<and>
      \<not> (\<exists>w t. is_space w \<and> sku_code_of r = w @ t) \<and>
      \<not> (\<exists>w t. is_space w \<and> sku_code_of r = t @ w)" for r
  proof -
    let ?cell = "case map_of r ''SKU Code'' of None \<Rightarrow> [] | Some cell \<Rightarrow> cell"
    have s: "sku_code_of r = strip ?cell" by (simp add: sku_code_of_def get_default_def)
    from strip_decomp [of ?cell] obtain pre post where
      p: "list_all is_space pre" "list_all is_space post" "?cell = concat pre @ strip ?cell @ concat post"
      by blast
    have 1: "\<not> (\<exists>w t. is_space w \<and> strip ?cell = w @ t)"
      using strip_no_leading by blast
    have 2: "\<not> (\<exists>w t. is_space w \<and> strip ?cell = t @ w)"
      using strip_no_trailing by blast
    show ?thesis unfolding s
      by (rule exI [of _ pre], rule exI [of _ post], intro conjI p 1 2)
  qed
  have g': "\<forall>r. \<exists>pre post. list_all is_space pre \<and> list_all is_space post \<and>
      (case map_of r ''SKU Code'' of None \<Rightarrow> [] | Some cell \<Rightarrow> cell) =
        concat pre @ sku_code_of r @ concat post \<and>
      \<not> (\<exists>w t. is_space w \<and> sku_code_of r = w @ t) \<and>
      \<not> (\<exists>w t. is_space w \<and> sku_code_of r = t @ w)"
    by (intro allI) (rule g)
  from a b c' d e' f g' show ?thesis by (intro conjI)
qed

text \<open>The parse of the example tables.\<close>

lemma test_rows_parsed:
  "parse_use_case_mappings example_float test_rows =
     Inr ([(''SKU-A'', [(''Early-Stage AI Startup'', 1200.5), (''Academic Research'', 0)]),
           (''SKU-B'', [(''Early-Stage AI Startup'', 0), (''Academic Research'', 3)])],
          [''Early-Stage AI Startup'', ''Academic Research''])"
  by (simp add: parse_use_case_mappings_def test_rows_def Let_def and_then_def get_default_def
        strip_eval use_case_row_def parse_float_def remove_char_def example_float_def
        dict_of_def)

lemma duplicate_rows_parsed:
  "parse_use_case_mappings example_float duplicate_rows =
     Inr ([(''SKU-A'', [(''Research'', 2)])], [''Research''])"
  by (simp add: parse_use_case_mappings_def duplicate_rows_def Let_def and_then_def get_default_def
        strip_eval use_case_row_def parse_float_def remove_char_def example_float_def
        dict_of_def)

lemma malformed_rows_parsed:
  "parse_use_case_mappings example_float malformed_rows = Inl (ValueError ''abc'')"
  by (simp add: parse_use_case_mappings_def malformed_rows_def Let_def and_then_def get_default_def
        strip_eval use_case_row_def parse_float_def remove_char_def example_float_def
        dict_of_def)

lemma padded_rows_parsed:
  "parse_use_case_mappings example_float padded_rows =
     Inr ([(''SKU-A'', [(''Research'', 1)]), (''SKU-B'', [(''Research'', 0)])], [''Research''])"
  by (simp add: parse_use_case_mappings_def padded_rows_def Let_def and_then_def get_default_def
        strip_eval use_case_row_def parse_float_def remove_char_def example_float_def
        dict_of_def)

text \<open>The test's table; a table whose first row has a no-break space before and a
  space after its SKU code, whose second row has a no-break space for its SKU code
  (the row is skipped, and its cell \<open>abc\<close> is not coerced), and whose third row has an
  em space for its cell (the coercion is \<open>0\<close>); and a table with the cell \<open>abc\<close> in its
  second row, for which the parse raises the \<^verbatim>\<open>ValueError\<close> that carries \<open>abc\<close>.\<close>

theorem parse_use_case_mappings_rows_witness:
  "(\<exists>parsed ucs d.
     parse_use_case_mappings example_float test_rows = Inr (parsed, ucs) \<and>
     ucs = header_use_cases test_rows \<and>
     ucs = [''Early-Stage AI Startup'', ''Academic Research''] \<and>
     fst ` set parsed = {''SKU-A'', ''SKU-B''} \<and>
     map_of parsed ''SKU-A'' = Some d \<and>
     map_of d ''Early-Stage AI Startup'' = Some 1200.5 \<and>
     map_of d ''Academic Research'' = Some 0) \<and>
   parse_use_case_mappings example_float padded_rows =
     Inr ([(''SKU-A'', [(''Research'', 1)]), (''SKU-B'', [(''Research'', 0)])], [''Research'']) \<and>
   map sku_code_of padded_rows = [''SKU-A'', [], ''SKU-B''] \<and>
   header_use_cases padded_rows = [''Research''] \<and>
   parse_use_case_mappings example_float malformed_rows = Inl (ValueError ''abc'') \<and>
   (\<exists>pre r post.
      malformed_rows = pre @ r # post \<and> sku_code_of r \<noteq> [] \<and>
      get_default r ''Research'' [] = ''abc'' \<and> example_float ''abc'' = None)"
proof -
  from parse_use_case_mappings_rows [of example_float test_rows, THEN conjunct2, THEN conjunct2,
      THEN conjunct1]
  have "\<forall>parsed ucs. parse_use_case_mappings example_float test_rows = Inr (parsed, ucs) \<longrightarrow>
      ucs = header_use_cases test_rows" by blast
  with test_rows_parsed
  have "[''Early-Stage AI Startup'', ''Academic Research''] = header_use_cases test_rows" by blast
  then have 1: "\<exists>parsed ucs d.
     parse_use_case_mappings example_float test_rows = Inr (parsed, ucs) \<and>
     ucs = header_use_cases test_rows \<and>
     ucs = [''Early-Stage AI Startup'', ''Academic Research''] \<and>
     fst ` set parsed = {''SKU-A'', ''SKU-B''} \<and>
     map_of parsed ''SKU-A'' = Some d \<and>
     map_of d ''Early-Stage AI Startup'' = Some 1200.5 \<and>
     map_of d ''Academic Research'' = Some 0"
    using test_rows_parsed by simp
  from parse_use_case_mappings_rows [of example_float padded_rows, THEN conjunct2, THEN conjunct2,
      THEN conjunct1]
  have "\<forall>parsed ucs. parse_use_case_mappings example_float padded_rows = Inr (parsed, ucs) \<longrightarrow>
      ucs = header_use_cases padded_rows" by blast
  with padded_rows_parsed have 2: "header_use_cases padded_rows = [''Research'']" by simp
  have 3: "map sku_code_of padded_rows = [''SKU-A'', [], ''SKU-B'']"
    by (simp add: padded_rows_def sku_code_of_def get_default_def strip_eval)
  have 4: "\<exists>pre r post.
      malformed_rows = pre @ r # post \<and> sku_code_of r \<noteq> [] \<and>
      get_default r ''Research'' [] = ''abc'' \<and> example_float ''abc'' = None"
  proof -
    from parse_use_case_mappings_rows [of example_float malformed_rows, THEN conjunct2,
        THEN conjunct2, THEN conjunct2, THEN conjunct2, THEN conjunct1, THEN spec, THEN mp,
        OF malformed_rows_parsed]
    have "\<exists>pre r post u1 uc u2 c.
         malformed_rows = pre @ r # post \<and> header_use_cases malformed_rows = u1 @ uc # u2 \<and>
         (\<forall>r'\<in>set pre. sku_code_of r' \<noteq> [] \<longrightarrow>
            (\<forall>u\<in>set (header_use_cases malformed_rows).
               \<exists>v. parse_float example_float (get_default r' u []) = Inr v)) \<and>
         sku_code_of r \<noteq> [] \<and>
         (\<forall>u\<in>set u1. \<exists>v. parse_float example_float (get_default r u []) = Inr v) \<and>
         c = filter (\<lambda>x. x \<notin> {CHR '','', CHR ''$'', CHR ''%''}) (strip (get_default r uc [])) \<and>
         c \<noteq> [] \<and> example_float c = None \<and> ValueError ''abc'' = ValueError c" .
    then obtain pre r post c where
      m: "malformed_rows = pre @ r # post" "sku_code_of r \<noteq> []"
         "example_float c = None" "ValueError ''abc'' = ValueError c"
      by blast
    from m(4) have c: "c = ''abc''" by simp
    have "r \<in> set (pre @ r # post)" by simp
    then have "r \<in> set malformed_rows" by (simp only: m(1) [symmetric])
    then have "r = [(''SKU Code'', ''SKU-A''), (''Research'', ''abc'')]"
      by (simp add: malformed_rows_def)
    then have g: "get_default r ''Research'' [] = ''abc''"
      by (simp add: get_default_def)
    have n: "example_float ''abc'' = None" using m(3) c by simp
    show ?thesis
      by (rule exI [of _ pre], rule exI [of _ r], rule exI [of _ post], intro conjI m(1) m(2) g n)
  qed
  from 1 padded_rows_parsed 3 2 malformed_rows_parsed 4 show ?thesis by (intro conjI)
qed

text \<open>Of two rows with the SKU code \<open>SKU-A\<close> and the cells \<open>1\<close> and \<open>2\<close>, the first is
  retained and the mapping holds \<open>2\<close> for it, not the coercion of its own cell; and on
  a row with the cell \<open>abc\<close> the parse returns nothing.\<close>

theorem parse_use_case_mappings_rows_counterexample:
  "(\<exists>parsed ucs.
      parse_use_case_mappings example_float duplicate_rows = Inr (parsed, ucs) \<and>
      \<not> (\<forall>r\<in>set duplicate_rows. sku_code_of r \<noteq> [] \<longrightarrow>
           (\<exists>d. map_of parsed (sku_code_of r) = Some d \<and>
                (\<forall>uc\<in>set ucs. \<exists>v. parse_float example_float (get_default r uc []) = Inr v \<and>
                                  map_of d uc = Some v)))) \<and>
   \<not> (\<exists>res. parse_use_case_mappings example_float malformed_rows = Inr res)"
proof -
  have c: "sku_code_of [(''SKU Code'', ''SKU-A''), (''Research'', ''1'')] = ''SKU-A''"
    by (simp add: sku_code_of_def get_default_def strip_eval)
  have p: "parse_float example_float (get_default [(''SKU Code'', ''SKU-A''), (''Research'', ''1'')] ''Research'' []) = Inr 1"
    by (simp add: get_default_def parse_float_def strip_eval remove_char_def example_float_def)
  have "\<not> (\<forall>r\<in>set duplicate_rows. sku_code_of r \<noteq> [] \<longrightarrow>
           (\<exists>d. map_of [(''SKU-A'', [(''Research'', 2::real)])] (sku_code_of r) = Some d \<and>
                (\<forall>uc\<in>set [''Research'']. \<exists>v. parse_float example_float (get_default r uc []) = Inr v \<and>
                                  map_of d uc = Some v)))"
    by (simp add: duplicate_rows_def c p)
  then show ?thesis using duplicate_rows_parsed malformed_rows_parsed by simp
qed

subsection \<open>Refreshing the cache\<close>

text \<open>With the example configuration, the first server refreshes any store to the
  test's store, and the second leaves it as it is.\<close>

lemma refresh_example:
  "refresh_once example_env example_fetch example_float now store =
     (Inr (), test_store\<lparr>last_refresh_utc := Some now\<rparr>)"
  by (simp add: refresh_once_def example_env_def example_fetch_def unset_def and_then_def
        parse_sku_def parse_volume_discount_def parse_uplift_def getitem_def
        parse_float_def strip_eval remove_char_def example_float_def
        parse_bool_def lower_def to_lower_def dict_of_def
        parse_use_case_mappings_def Let_def use_case_row_def get_default_def test_store_def)

lemma refresh_failing:
  "refresh_once example_env failing_fetch example_float now store =
     (Inl (FetchError ''uplifts''), store)"
  by (simp add: refresh_once_def example_env_def example_fetch_def failing_fetch_def unset_def and_then_def)


lemma and_then_Inr:
  "and_then m f = Inr y \<longleftrightarrow> (\<exists>x. m = Inr x \<and> f x = Inr y)"
  by (cases m) (simp_all add: and_then_def)

lemma unset_Some: "\<not> unset v \<Longrightarrow> \<exists>s. v = Some s"
  by (cases v) (simp_all add: unset_def)

text \<open>
  Claim C5. Whatever \<open>refresh_once\<close> raises (the configuration error, the error of a
  fetch, a missing column, a cell that is no number), it leaves the store as it was:
  the five fields of the snapshot and \<open>last_refresh_utc\<close>. A store that differs after
  the call comes from a call that succeeded; and a call that succeeds found the four
  configuration values, fetched the four tables and parsed them all, and replaced
  the five fields by the parsed values and the timestamp by the time of the call.
\<close>

theorem refresh_once_all_or_nothing:
  assumes "refresh_once getenv fetch_csv float_of now store = (outcome, store')"
  shows "(\<forall>e. outcome = Inl e \<longrightarrow> store' = store) \<and>
         (store' \<noteq> store \<longrightarrow> outcome = Inr ()) \<and>
         (outcome = Inr () \<longrightarrow>
            (\<exists>p v u m price_rows volume_rows uplift_rows use_case_rows
               sku_list discount_list uplift_list mappings ucs.
               getenv ''PRICELIST_CSV_URL'' = Some p \<and> getenv ''VOLUME_CSV_URL'' = Some v \<and>
               getenv ''UPLIFTS_CSV_URL'' = Some u \<and>
               getenv ''USE_CASE_MAPPINGS_CSV_URL'' = Some m \<and>
               fetch_csv p = Inr price_rows \<and> fetch_csv v = Inr volume_rows \<and>
               fetch_csv u = Inr uplift_rows \<and> fetch_csv m = Inr use_case_rows \<and>
               traverse (parse_sku float_of) price_rows = Inr sku_list \<and>
               traverse (parse_volume_discount float_of) volume_rows = Inr discount_list \<and>
               traverse (parse_uplift float_of) uplift_rows = Inr uplift_list \<and>
               parse_use_case_mappings float_of use_case_rows = Inr (mappings, ucs) \<and>
               store' =
                 \<lparr>skus = dict_of (map (\<lambda>s. (sku_code s, s)) sku_list),
                  volume_discounts = sort_key min_units discount_list,
                  uplifts = dict_of (map (\<lambda>u. (uplift_name u, u)) uplift_list),
                  use_case_mappings = mappings,
                  use_cases = ucs,
                  last_refresh_utc = Some now\<rparr>))"
proof (cases "unset (getenv ''PRICELIST_CSV_URL'') \<or> unset (getenv ''VOLUME_CSV_URL'')
       \<or> unset (getenv ''UPLIFTS_CSV_URL'') \<or> unset (getenv ''USE_CASE_MAPPINGS_CSV_URL'')")
  case True
  then have "outcome = Inl (RuntimeError missing_env_message) \<and> store' = store"
    using assms by (auto simp: refresh_once_def)
  then show ?thesis by simp
next
  case False
  then obtain p v u m where env:
    "getenv ''PRICELIST_CSV_URL'' = Some p" "getenv ''VOLUME_CSV_URL'' = Some v"
    "getenv ''UPLIFTS_CSV_URL'' = Some u" "getenv ''USE_CASE_MAPPINGS_CSV_URL'' = Some m"
    by (meson unset_Some)
  define load where "load =
     and_then (fetch_csv p) (\<lambda>price_rows.
     and_then (fetch_csv v) (\<lambda>volume_rows.
     and_then (fetch_csv u) (\<lambda>uplift_rows.
     and_then (fetch_csv m) (\<lambda>use_case_rows.
     and_then (traverse (parse_sku float_of) price_rows) (\<lambda>sku_list.
     and_then (traverse (parse_volume_discount float_of) volume_rows) (\<lambda>discount_list.
     and_then (traverse (parse_uplift float_of) uplift_rows) (\<lambda>uplift_list.
     and_then (parse_use_case_mappings float_of use_case_rows) (\<lambda>parsed_use_cases.
       Inr (dict_of (map (\<lambda>s. (sku_code s, s)) sku_list),
            sort_key min_units discount_list,
            dict_of (map (\<lambda>u. (uplift_name u, u)) uplift_list),
            parsed_use_cases)))))))))"
  have r: "refresh_once getenv fetch_csv float_of now store =
     (case load of
        Inl e \<Rightarrow> (Inl e, store)
      | Inr (parsed_skus, parsed_discounts, parsed_uplifts, parsed_use_case_mappings, parsed_use_cases) \<Rightarrow>
          (Inr (),
           store\<lparr>skus := parsed_skus, volume_discounts := parsed_discounts,
                 uplifts := parsed_uplifts, use_case_mappings := parsed_use_case_mappings,
                 use_cases := parsed_use_cases, last_refresh_utc := Some now\<rparr>))"
    using False unfolding refresh_once_def load_def Let_def env by simp
  show ?thesis
  proof (cases load)
    case (Inl e)
    then have "outcome = Inl e \<and> store' = store" using assms r by simp
    then show ?thesis by simp
  next
    case (Inr t)
    obtain ps pd pu pm puc where t: "t = (ps, pd, pu, pm, puc)" by (cases t) auto
    have o: "outcome = Inr ()" and s': "store' =
        \<lparr>skus = ps, volume_discounts = pd, uplifts = pu, use_case_mappings = pm,
         use_cases = puc, last_refresh_utc = Some now\<rparr>"
      using assms r Inr t by (cases store; simp)+
    from Inr t obtain price_rows volume_rows uplift_rows use_case_rows
               sku_list discount_list uplift_list where l:
      "fetch_csv p = Inr price_rows" "fetch_csv v = Inr volume_rows"
      "fetch_csv u = Inr uplift_rows" "fetch_csv m = Inr use_case_rows"
      "traverse (parse_sku float_of) price_rows = Inr sku_list"
      "traverse (parse_volume_discount float_of) volume_rows = Inr discount_list"
      "traverse (parse_uplift float_of) uplift_rows = Inr uplift_list"
      "parse_use_case_mappings float_of use_case_rows = Inr (pm, puc)"
      "ps = dict_of (map (\<lambda>s. (sku_code s, s)) sku_list)"
      "pd = sort_key min_units discount_list"
      "pu = dict_of (map (\<lambda>u. (uplift_name u, u)) uplift_list)"
      unfolding load_def and_then_Inr by auto
    show ?thesis using o s' env l by blast
  qed
qed


text \<open>A fetch that fails leaves the test's store; a refresh that succeeds turns the
  initial store into the test's store with the timestamp 100.\<close>

theorem refresh_once_all_or_nothing_witness:
  "refresh_once example_env failing_fetch example_float 100 test_store =
     (Inl (FetchError ''uplifts''), test_store) \<and>
   refresh_once example_env example_fetch example_float 100 init_store =
     (Inr (), test_store\<lparr>last_refresh_utc := Some 100\<rparr>) \<and>
   test_store\<lparr>last_refresh_utc := Some 100\<rparr> \<noteq> init_store"
proof -
  have "\<forall>e. Inl (FetchError ''uplifts'') = (Inl e :: error + unit) \<longrightarrow> test_store = test_store"
    using refresh_once_all_or_nothing [OF refresh_failing [of 100 test_store]] by blast
  moreover have "test_store\<lparr>last_refresh_utc := Some 100\<rparr> \<noteq> init_store"
    by (simp add: test_store_def init_store_def)
  ultimately show ?thesis
    using refresh_failing [of 100 test_store] refresh_example [of 100 init_store] by simp
qed

text \<open>
  Claim C6. \<open>ensure_fresh\<close> is \<open>refresh_once\<close> when no refresh has completed
  (\<open>last_refresh_utc\<close> is unset) or when at least 600 seconds have passed since
  \<open>last_refresh_utc\<close>; in any other case it returns at once and the store is unchanged.
\<close>

theorem ensure_fresh_cases:
  "(last_refresh_utc store = None \<longrightarrow>
      ensure_fresh getenv fetch_csv float_of now now' store =
        refresh_once getenv fetch_csv float_of now' store) \<and>
   (\<forall>t. last_refresh_utc store = Some t \<and> now - t \<ge> 600 \<longrightarrow>
      ensure_fresh getenv fetch_csv float_of now now' store =
        refresh_once getenv fetch_csv float_of now' store) \<and>
   (\<forall>t. last_refresh_utc store = Some t \<and> now - t < 600 \<longrightarrow>
      ensure_fresh getenv fetch_csv float_of now now' store = (Inr (), store))"
  by (auto simp: ensure_fresh_def stale_def REFRESH_SECONDS_def)

text \<open>A store never refreshed is refreshed; a store refreshed at 1000 is refreshed at
  1600, when exactly 600 seconds have passed, and left alone at 1599.5.\<close>

theorem ensure_fresh_cases_witness:
  "ensure_fresh example_env example_fetch example_float 5 6 init_store =
     (Inr (), test_store\<lparr>last_refresh_utc := Some 6\<rparr>) \<and>
   ensure_fresh example_env example_fetch example_float 1600 1601
       (test_store\<lparr>last_refresh_utc := Some 1000\<rparr>) =
     (Inr (), test_store\<lparr>last_refresh_utc := Some 1601\<rparr>) \<and>
   ensure_fresh example_env example_fetch example_float 1599.5 1601
       (test_store\<lparr>last_refresh_utc := Some 1000\<rparr>) =
     (Inr (), test_store\<lparr>last_refresh_utc := Some 1000\<rparr>)"
proof -
  have 1: "ensure_fresh example_env example_fetch example_float 5 6 init_store =
     (Inr (), test_store\<lparr>last_refresh_utc := Some 6\<rparr>)"
    using ensure_fresh_cases [of init_store example_env example_fetch example_float 5 6]
    by (simp add: init_store_def refresh_example)
  have 2: "ensure_fresh example_env example_fetch example_float 1600 1601
       (test_store\<lparr>last_refresh_utc := Some 1000\<rparr>) =
     (Inr (), test_store\<lparr>last_refresh_utc := Some 1601\<rparr>)"
    using ensure_fresh_cases [of "test_store\<lparr>last_refresh_utc := Some 1000\<rparr>"
        example_env example_fetch example_float 1600 1601]
    by (simp add: refresh_example)
  have 3: "ensure_fresh example_env example_fetch example_float 1599.5 1601
       (test_store\<lparr>last_refresh_utc := Some 1000\<rparr>) =
     (Inr (), test_store\<lparr>last_refresh_utc := Some 1000\<rparr>)"
    using ensure_fresh_cases [of "test_store\<lparr>last_refresh_utc := Some 1000\<rparr>"
        example_env example_fetch example_float "1599.5" 1601]
    by simp
  show ?thesis using 1 2 3 by simp
qed

subsection \<open>Concurrent callers of the refresh\<close>

text \<open>Moving one caller changes the number of callers in flight by what the caller
  leaves and what it enters.\<close>

lemma count_list_update:
  "i < length xs \<Longrightarrow>
   length (filter P (xs[i := v])) + (if P (xs ! i) then 1 else 0) =
   length (filter P xs) + (if P v then 1 else 0)"
proof (induction xs arbitrary: i)
  case Nil
  then show ?case by simp
next
  case (Cons x xs)
  then show ?case by (cases i) auto
qed

lemma in_flight_update:
  assumes "i < length (callers s)"
  shows "in_flight (s\<lparr>callers := (callers s)[i := v]\<rparr>) + (if callers s ! i = Fetching then 1 else 0) =
         in_flight s + (if v = Fetching then 1 else 0)"
  using count_list_update [OF assms, of "\<lambda>c. c = Fetching" v] by (simp add: in_flight_def)

text \<open>The lock is held exactly while one batch of fetches is in flight; every step
  keeps this.\<close>

lemma step_in_flight:
  assumes "step getenv float_of s s'" and "in_flight s = (if lock_held s then 1 else 0)"
  shows "in_flight s' = (if lock_held s' then 1 else 0)"
  using assms
proof (cases rule: step.cases)
  case (call_fresh i now)
  then show ?thesis using assms(2) in_flight_update [of i s Done] by (simp add: in_flight_def)
next
  case (call_stale i now)
  then show ?thesis using assms(2) in_flight_update [of i s Waiting] by (simp add: in_flight_def)
next
  case (call_refresh i)
  then show ?thesis using assms(2) in_flight_update [of i s Waiting] by (simp add: in_flight_def)
next
  case (acquire_raise i)
  then show ?thesis using assms(2) in_flight_update [of i s Done] by (simp add: in_flight_def)
next
  case (acquire_fetch i)
  then show ?thesis using assms(2) in_flight_update [of i s Fetching] by (simp add: in_flight_def)
next
  case (complete i fetch_csv now outcome store')
  have "in_flight s \<ge> 1"
    using complete(2,3) in_flight_update [of i s Done] by simp
  then have "in_flight s = 1" using assms(2) by (simp split: if_splits)
  then show ?thesis using complete in_flight_update [of i s Done] by (simp add: in_flight_def)
qed

lemma reachable_in_flight:
  assumes "rtranclp (step getenv float_of) s0 s" and "in_flight s0 = (if lock_held s0 then 1 else 0)"
  shows "in_flight s = (if lock_held s then 1 else 0)"
  using assms
proof (induction rule: rtranclp_induct)
  case base
  then show ?case .
next
  case (step y z)
  show ?case by (rule step_in_flight [OF step(2)]) (rule step.IH [OF step.prems])
qed

lemma step_effects:
  assumes "step getenv float_of s s'" and "in_flight s = (if lock_held s then 1 else 0)"
  shows "(fetch_batches s' \<noteq> fetch_batches s \<longrightarrow>
            in_flight s = 0 \<and> in_flight s' = 1 \<and> fetch_batches s' = Suc (fetch_batches s)) \<and>
         (cache s' \<noteq> cache s \<longrightarrow> in_flight s = 1 \<and> in_flight s' = 0)"
proof -
  note inv' = step_in_flight [OF assms]
  from assms(1) show ?thesis
  proof (cases rule: step.cases)
    case (acquire_fetch i)
    then show ?thesis using assms(2) inv' by simp
  next
    case (complete i fetch_csv now outcome store')
    have "in_flight s \<ge> 1"
      using complete(2,3) in_flight_update [of i s Done] by simp
    then have "in_flight s = 1" using assms(2) by (simp split: if_splits)
    then show ?thesis using complete inv' by simp
  qed simp_all
qed

text \<open>A caller that waits for the lock leaves the wait only by taking the free lock,
  and what it does then depends on the configuration alone: with the four URLs set it
  issues a batch of fetches, whatever the age of the store.\<close>

lemma step_waiter:
  assumes "step getenv float_of s s'" and "i < length (callers s)"
    and "callers s ! i = Waiting" and "callers s' ! i \<noteq> Waiting"
  shows "\<not> lock_held s \<and> cache s' = cache s \<and>
         (if configured getenv
          then callers s' ! i = Fetching \<and> lock_held s' \<and> fetch_batches s' = Suc (fetch_batches s)
          else callers s' ! i = Done \<and> \<not> lock_held s' \<and> fetch_batches s' = fetch_batches s)"
  using assms
  by (cases rule: step.cases) (auto simp: configured_def nth_list_update split: if_splits)

lemma step_mono:
  assumes "step getenv float_of s s'"
  shows "fetch_batches s \<le> fetch_batches s' \<and> length (callers s') = length (callers s)"
  using assms by (cases rule: step.cases) auto

lemma run_waiter:
  assumes "rtranclp (step getenv float_of) s s'" and "configured getenv"
    and "i < length (callers s)" and "callers s ! i = Waiting"
  shows "fetch_batches s \<le> fetch_batches s' \<and> length (callers s') = length (callers s) \<and>
         (callers s' ! i \<noteq> Waiting \<longrightarrow> fetch_batches s < fetch_batches s')"
  using assms(1)
proof (induction rule: rtranclp_induct)
  case base
  then show ?case using assms(4) by simp
next
  case (step y z)
  note m = step_mono [OF step(2)]
  show ?case
  proof (cases "callers y ! i = Waiting")
    case True
    have l: "i < length (callers y)" using step.IH assms(3) by simp
    show ?thesis
    proof (cases "callers z ! i = Waiting")
      case True
      then show ?thesis using step.IH m by simp
    next
      case False
      from step_waiter [OF step(2) l True False] assms(2)
      have "fetch_batches z = Suc (fetch_batches y)" by simp
      then show ?thesis using step.IH m by simp
    qed
  next
    case False
    then show ?thesis using step.IH m by simp
  qed
qed

text \<open>
  Claim C7, as amended. From a state in which the lock is free and no fetch is in
  flight, every run of callers of \<open>ensure_fresh\<close> and \<open>refresh_once\<close> keeps at most one
  batch of fetches in flight, and exactly one while the lock is held. A batch is
  issued only when none is in flight, and the store changes only in the step that
  ends the batch in flight. A caller that waits for the lock leaves the wait only
  when the lock is free, and without changing the store; with the configuration set
  it then holds the lock and has issued one more batch (with a value missing it has
  raised). This step is open to it as soon as the lock is free, whatever the age of
  the store: nothing tests staleness after the wait. So in every run in which a
  waiting caller gets past the wait, with the configuration set, the number of batches
  issued has grown.
\<close>

theorem refresh_lock_exclusive:
  assumes "rtranclp (step getenv float_of) s0 s" and "\<not> lock_held s0" and "in_flight s0 = 0"
  shows "in_flight s = (if lock_held s then 1 else 0) \<and>
         (\<forall>s'. step getenv float_of s s' \<longrightarrow>
            (fetch_batches s' \<noteq> fetch_batches s \<longrightarrow>
               in_flight s = 0 \<and> in_flight s' = 1 \<and> fetch_batches s' = Suc (fetch_batches s)) \<and>
            (cache s' \<noteq> cache s \<longrightarrow> in_flight s = 1 \<and> in_flight s' = 0)) \<and>
         (\<forall>i s'. i < length (callers s) \<and> callers s ! i = Waiting \<and>
                 step getenv float_of s s' \<and> callers s' ! i \<noteq> Waiting \<longrightarrow>
            \<not> lock_held s \<and> cache s' = cache s \<and>
            (if configured getenv
             then callers s' ! i = Fetching \<and> lock_held s' \<and>
                  fetch_batches s' = Suc (fetch_batches s)
             else callers s' ! i = Done \<and> \<not> lock_held s' \<and>
                  fetch_batches s' = fetch_batches s)) \<and>
         (\<forall>i. i < length (callers s) \<and> callers s ! i = Waiting \<and> \<not> lock_held s \<and>
              configured getenv \<longrightarrow>
            step getenv float_of s
              (s\<lparr>lock_held := True, callers := (callers s)[i := Fetching],
                 fetch_batches := Suc (fetch_batches s)\<rparr>)) \<and>
         (\<forall>i s'. i < length (callers s) \<and> callers s ! i = Waiting \<and> configured getenv \<and>
                 rtranclp (step getenv float_of) s s' \<and> callers s' ! i \<noteq> Waiting \<longrightarrow>
            fetch_batches s < fetch_batches s')"
proof -
  have inv: "in_flight s = (if lock_held s then 1 else 0)"
    using reachable_in_flight [OF assms(1)] assms(2,3) by simp
  have b: "\<forall>s'. step getenv float_of s s' \<longrightarrow>
            (fetch_batches s' \<noteq> fetch_batches s \<longrightarrow>
               in_flight s = 0 \<and> in_flight s' = 1 \<and> fetch_batches s' = Suc (fetch_batches s)) \<and>
            (cache s' \<noteq> cache s \<longrightarrow> in_flight s = 1 \<and> in_flight s' = 0)"
    using step_effects [OF _ inv] by blast
  have c: "\<forall>i s'. i < length (callers s) \<and> callers s ! i = Waiting \<and>
                 step getenv float_of s s' \<and> callers s' ! i \<noteq> Waiting \<longrightarrow>
            \<not> lock_held s \<and> cache s' = cache s \<and>
            (if configured getenv
             then callers s' ! i = Fetching \<and> lock_held s' \<and>
                  fetch_batches s' = Suc (fetch_batches s)
             else callers s' ! i = Done \<and> \<not> lock_held s' \<and>
                  fetch_batches s' = fetch_batches s)"
    using step_waiter by blast
  have d: "\<forall>i. i < length (callers s) \<and> callers s ! i = Waiting \<and> \<not> lock_held s \<and>
              configured getenv \<longrightarrow>
            step getenv float_of s
              (s\<lparr>lock_held := True, callers := (callers s)[i := Fetching],
                 fetch_batches := Suc (fetch_batches s)\<rparr>)"
    unfolding configured_def by (intro allI impI acquire_fetch) simp_all
  have e: "\<forall>i s'. i < length (callers s) \<and> callers s ! i = Waiting \<and> configured getenv \<and>
                 rtranclp (step getenv float_of) s s' \<and> callers s' ! i \<noteq> Waiting \<longrightarrow>
            fetch_batches s < fetch_batches s'"
    using run_waiter by blast
  from inv b c d e show ?thesis by (intro conjI)
qed

text \<open>A run of two callers of \<open>ensure_fresh\<close> on a store never refreshed. The first
  finds it stale, takes the lock and issues a batch; the second arrives while that
  batch is in flight, finds the store stale and waits; the first batch ends at time 2
  and refreshes the store; the second caller takes the lock and issues a second
  batch.\<close>

lemma example_env_set:
  "\<not> (unset (example_env ''PRICELIST_CSV_URL'') \<or> unset (example_env ''VOLUME_CSV_URL'')
       \<or> unset (example_env ''UPLIFTS_CSV_URL'') \<or> unset (example_env ''USE_CASE_MAPPINGS_CSV_URL''))"
  by (simp add: example_env_def unset_def)

lemma run_until_waiting:
  "rtranclp (step example_env example_float) two_callers
     \<lparr>cache = init_store, lock_held = True, callers = [Fetching, Waiting], fetch_batches = 1\<rparr>"
proof -
  let ?s1 = "\<lparr>cache = init_store, lock_held = False, callers = [Waiting, Idle],
               fetch_batches = 0\<rparr> :: real system"
  let ?s2 = "\<lparr>cache = init_store, lock_held = True, callers = [Fetching, Idle],
               fetch_batches = 1\<rparr> :: real system"
  let ?s3 = "\<lparr>cache = init_store, lock_held = True, callers = [Fetching, Waiting],
               fetch_batches = 1\<rparr> :: real system"
  have 1: "step example_env example_float two_callers ?s1"
    using call_stale [of 0 two_callers 0 example_env example_float]
    by (simp add: two_callers_def stale_def init_store_def)
  have 2: "step example_env example_float ?s1 ?s2"
    using acquire_fetch [of 0 ?s1 example_env example_float] example_env_set by simp
  have 3: "step example_env example_float ?s2 ?s3"
    using call_stale [of 1 ?s2 1 example_env example_float]
    by (simp add: stale_def init_store_def)
  from 1 2 3 show ?thesis by (meson rtranclp.rtrancl_into_rtrancl rtranclp.rtrancl_refl)
qed

lemma run_first_done:
  "step example_env example_float
     \<lparr>cache = init_store, lock_held = True, callers = [Fetching, Waiting], fetch_batches = 1\<rparr>
     \<lparr>cache = test_store\<lparr>last_refresh_utc := Some 2\<rparr>, lock_held = False,
      callers = [Done, Waiting], fetch_batches = 1\<rparr>"
  using complete [of 0 "\<lparr>cache = init_store, lock_held = True, callers = [Fetching, Waiting],
        fetch_batches = 1\<rparr>" example_env example_fetch example_float 2 "Inr ()"
        "test_store\<lparr>last_refresh_utc := Some 2\<rparr>"]
  by (simp add: refresh_example)

lemma run_second_batch:
  "step example_env example_float
     \<lparr>cache = test_store\<lparr>last_refresh_utc := Some 2\<rparr>, lock_held = False,
      callers = [Done, Waiting], fetch_batches = 1\<rparr>
     \<lparr>cache = test_store\<lparr>last_refresh_utc := Some 2\<rparr>, lock_held = True,
      callers = [Done, Fetching], fetch_batches = 2\<rparr>"
  using acquire_fetch [of 1 "\<lparr>cache = test_store\<lparr>last_refresh_utc := Some 2\<rparr>,
        lock_held = False, callers = [Done, Waiting], fetch_batches = 1\<rparr>"
        example_env example_float] example_env_set
  by (simp add: numeral_2_eq_2)

text \<open>In this run the second caller waits while the first batch is in flight. After
  that batch the lock is free and the store is one second old, not stale; the step in
  which the waiting caller takes the lock and issues the second batch is a step of
  the system, and one batch is in flight after it.\<close>

theorem refresh_lock_exclusive_witness:
  "rtranclp (step example_env example_float) two_callers
     \<lparr>cache = test_store\<lparr>last_refresh_utc := Some 2\<rparr>, lock_held = False,
      callers = [Done, Waiting], fetch_batches = 1\<rparr> \<and>
   \<not> stale 3 (test_store\<lparr>last_refresh_utc := Some 2\<rparr>) \<and>
   configured example_env \<and>
   in_flight \<lparr>cache = test_store\<lparr>last_refresh_utc := Some 2\<rparr>, lock_held = False,
      callers = [Done, Waiting], fetch_batches = (1::nat)\<rparr> = 0 \<and>
   step example_env example_float
     \<lparr>cache = test_store\<lparr>last_refresh_utc := Some 2\<rparr>, lock_held = False,
      callers = [Done, Waiting], fetch_batches = 1\<rparr>
     \<lparr>cache = test_store\<lparr>last_refresh_utc := Some 2\<rparr>, lock_held = True,
      callers = [Done, Fetching], fetch_batches = 2\<rparr> \<and>
   in_flight \<lparr>cache = test_store\<lparr>last_refresh_utc := Some 2\<rparr>, lock_held = True,
      callers = [Done, Fetching], fetch_batches = (2::nat)\<rparr> = 1"
proof -
  let ?s4 = "\<lparr>cache = test_store\<lparr>last_refresh_utc := Some 2\<rparr>, lock_held = False,
               callers = [Done, Waiting], fetch_batches = 1\<rparr> :: real system"
  let ?s5 = "\<lparr>cache = test_store\<lparr>last_refresh_utc := Some 2\<rparr>, lock_held = True,
               callers = [Done, Fetching], fetch_batches = 2\<rparr> :: real system"
  have r: "rtranclp (step example_env example_float) two_callers ?s4"
    using run_until_waiting run_first_done by (rule rtranclp.rtrancl_into_rtrancl)
  have i: "\<not> lock_held two_callers" "in_flight two_callers = 0"
    by (simp_all add: two_callers_def in_flight_def)
  have f: "\<not> stale 3 (test_store\<lparr>last_refresh_utc := Some 2\<rparr>)"
    by (simp add: stale_def REFRESH_SECONDS_def)
  have g: "configured example_env"
    using example_env_set by (simp add: configured_def)
  note th = refresh_lock_exclusive [OF r i]
  have 0: "in_flight ?s4 = 0" using th [THEN conjunct1] by simp
  have w: "1 < length (callers ?s4) \<and> callers ?s4 ! 1 = Waiting \<and> \<not> lock_held ?s4 \<and>
           configured example_env"
    using g by simp
  have "step example_env example_float ?s4
          (?s4\<lparr>lock_held := True, callers := (callers ?s4)[1 := Fetching],
               fetch_batches := Suc (fetch_batches ?s4)\<rparr>)"
    using th [THEN conjunct2, THEN conjunct2, THEN conjunct2, THEN conjunct1, THEN spec,
        THEN mp, OF w] .
  then have s: "step example_env example_float ?s4 ?s5" by (simp add: numeral_2_eq_2)
  have "fetch_batches ?s5 \<noteq> fetch_batches ?s4 \<longrightarrow>
          in_flight ?s4 = 0 \<and> in_flight ?s5 = 1 \<and> fetch_batches ?s5 = Suc (fetch_batches ?s4)"
    using th [THEN conjunct2, THEN conjunct1, THEN spec, THEN mp, OF s] by (rule conjunct1)
  then have 1: "in_flight ?s5 = 1" by simp
  from r f g 0 s 1 show ?thesis by (intro conjI)
qed

text \<open>Two batches are issued in this run, the second by the caller that waited, on a
  store refreshed one second before.\<close>

theorem single_fetch_batch_counterexample:
  "rtranclp (step example_env example_float) two_callers
     \<lparr>cache = init_store, lock_held = True, callers = [Fetching, Waiting], fetch_batches = 1\<rparr> \<and>
   rtranclp (step example_env example_float)
     \<lparr>cache = init_store, lock_held = True, callers = [Fetching, Waiting], fetch_batches = 1\<rparr>
     \<lparr>cache = test_store\<lparr>last_refresh_utc := Some 2\<rparr>, lock_held = True,
      callers = [Done, Fetching], fetch_batches = 2\<rparr> \<and>
   \<not> stale 3 (test_store\<lparr>last_refresh_utc := Some 2\<rparr>) \<and>
   \<not> (\<forall>s. rtranclp (step example_env example_float) two_callers s \<longrightarrow> fetch_batches s \<le> 1)"
proof -
  have b: "rtranclp (step example_env example_float)
     \<lparr>cache = init_store, lock_held = True, callers = [Fetching, Waiting], fetch_batches = 1\<rparr>
     \<lparr>cache = test_store\<lparr>last_refresh_utc := Some 2\<rparr>, lock_held = True,
      callers = [Done, Fetching], fetch_batches = 2\<rparr>"
    using run_first_done run_second_batch
    by (meson rtranclp.rtrancl_into_rtrancl rtranclp.rtrancl_refl)
  have f: "\<not> stale 3 (test_store\<lparr>last_refresh_utc := Some 2\<rparr>)"
    by (simp add: stale_def REFRESH_SECONDS_def)
  have "rtranclp (step example_env example_float) two_callers
     \<lparr>cache = test_store\<lparr>last_refresh_utc := Some 2\<rparr>, lock_held = True,
      callers = [Done, Fetching], fetch_batches = 2\<rparr>"
    using run_until_waiting b by (rule rtranclp_trans)
  then have "\<not> (\<forall>s. rtranclp (step example_env example_float) two_callers s \<longrightarrow> fetch_batches s \<le> 1)"
    by force
  then show ?thesis using run_until_waiting b f by simp
qed

end
